(* ===== verification/Prelude.thy ===== *)
theory Prelude
  imports Main "HOL-Library.Sublist" "HOL-Library.Monad_Syntax"
begin

text \<open>
  Shared vocabulary of the development: the Python string operations the three
  scripts use (\<open>str.lower\<close>, the substring test \<open>in\<close>, \<open>str.split\<close>,
  \<open>str.endswith\<close>), the backslash that joins registry path segments, and the
  named collection \<open>path_simps\<close> of rewrite rules for paths built by joining.
  Strings are \<open>char list\<close>; characters are bytes, so \<open>lower\<close> folds the
  ASCII letters only (Python folds all of Unicode; the scripts only compare
  ASCII names).
\<close>

named_theorems path_simps \<open>rewrite rules for registry paths built by joining\<close>

section \<open>Characters and case folding\<close>

definition backslash :: char where
  "backslash = CHR 0x5C"

definition lower_char :: "char \<Rightarrow> char" where
  "lower_char c =
     (let k = (of_char c :: nat) in if 65 \<le> k \<and> k \<le> 90 then char_of (k + 32) else c)"

definition lower :: "string \<Rightarrow> string" where
  "lower s = map lower_char s"

section \<open>The substring test \<open>needle in haystack\<close>\<close>

text \<open>
  Python's \<open>a in b\<close> on strings: \<open>a\<close> occurs in \<open>b\<close> as a contiguous
  block. The executable definition tries every suffix of the haystack for a prefix
  match; \<open>contains_iff_sublist\<close> relates it to \<open>sublist\<close> of HOL-Library.
\<close>

fun contains :: "string \<Rightarrow> string \<Rightarrow> bool" where
  "contains n [] = (n = [])"
| "contains n (c # cs) = (prefix n (c # cs) \<or> contains n cs)"

section \<open>\<open>str.endswith\<close>\<close>

definition endswith :: "string \<Rightarrow> string \<Rightarrow> bool" where
  "endswith s suf = suffix suf s"

section \<open>\<open>str.split\<close> on one character, and joining\<close>

text \<open>
  \<open>split_on c s\<close> is Python's \<open>s.split(c)\<close> for a one-character separator:
  never empty, one more piece than there are separators.
\<close>

fun split_on :: "char \<Rightarrow> string \<Rightarrow> string list" where
  "split_on c [] = [[]]"
| "split_on c (x # xs) =
     (let ws = split_on c xs in if x = c then [] # ws else (x # hd ws) # tl ws)"

text \<open>\<open>f"{path}\<backslash>\<backslash>{name}"\<close>: a registry path and a key name joined by a backslash.\<close>

definition join_path :: "string \<Rightarrow> string \<Rightarrow> string" where
  "join_path p n = p @ backslash # n"

section \<open>Lemmas on strings and paths\<close>

lemma lower_Nil [simp]: "lower [] = []"
  by (simp add: lower_def)

lemma lower_Cons [simp]: "lower (c # s) = lower_char c # lower s"
  by (simp add: lower_def)

lemma lower_append [simp]: "lower (s @ t) = lower s @ lower t"
  by (simp add: lower_def)

lemma length_lower [simp]: "length (lower s) = length s"
  by (simp add: lower_def)

lemma lower_char_idem [simp]: "lower_char (lower_char c) = lower_char c"
proof (cases "65 \<le> (of_char c :: nat) \<and> (of_char c :: nat) \<le> 90")
  case True
  then have "(of_char (char_of (of_char c + 32 :: nat)) :: nat) = of_char c + 32"
    by (simp add: of_char_of)
  with True show ?thesis by (simp add: lower_char_def Let_def)
next
  case False
  then show ?thesis by (auto simp: lower_char_def Let_def)
qed

lemma lower_idem [simp]: "lower (lower s) = lower s"
  by (induction s) simp_all

lemma lower_char_backslash [simp]: "lower_char backslash = backslash"
  by (simp add: lower_char_def backslash_def)

lemma contains_iff_sublist: "contains n h \<longleftrightarrow> sublist n h"
  by (induction h) (auto simp: sublist_Cons_right)

lemma contains_Nil [simp]: "contains [] h"
  by (simp add: contains_iff_sublist)

lemma contains_refl [simp]: "contains h h"
  by (simp add: contains_iff_sublist)

lemma split_on_not_Nil [simp]: "split_on c s \<noteq> []"
  by (cases s) (simp_all add: Let_def)

lemma split_on_no_sep [simp]: "c \<notin> set s \<Longrightarrow> split_on c s = [s]"
  by (induction s) auto

lemma split_on_append_sep:
  "split_on c (xs @ c # ys) = split_on c xs @ split_on c ys"
proof (induction xs)
  case Nil
  then show ?case by simp
next
  case (Cons x xs)
  obtain w ws where "split_on c xs = w # ws"
    using split_on_not_Nil by (metis list.exhaust)
  with Cons show ?case by (simp add: Let_def)
qed

lemma split_join_path [path_simps]:
  "backslash \<notin> set n \<Longrightarrow> split_on backslash (join_path p n) = split_on backslash p @ [n]"
  by (simp add: join_path_def split_on_append_sep)

lemma join_path_not_Nil [simp]: "join_path p n \<noteq> []"
  by (simp add: join_path_def)

end
