(* ===== verification/Winreg.thy ===== *)
theory Winreg
  imports Prelude
begin

text \<open>
  The configuration store that \<open>src/scripts/clean_reg.py\<close> reads and mutates
  through Python's \<open>winreg\<close> module. The module is not part of the repository; it
  is modelled from the store interface of the specification (open, enumerate the
  subkey at an index, read the default value, delete a key). A hive is a tree of
  keys; each key has an access control (what \<open>OpenKey\<close> and \<open>DeleteKey\<close>
  may do with it), an optional default value, and its subkeys as an ordered
  association list whose order is the enumeration order of \<open>EnumKey\<close>. Key names
  are matched without regard to case, as the registry does. Every failing call
  returns an \<open>OSError\<close> subclass as the left value of a sum.
\<close>

section \<open>Data\<close>

datatype hive = HKEY_CURRENT_USER | HKEY_LOCAL_MACHINE | HKEY_CLASSES_ROOT

datatype acl = FullAccess | ReadOnly | NoAccess

datatype reg_value =
    RegSz string
  | RegExpandSz string
  | RegMultiSz "string list"
  | RegDword nat
  | RegBinary "nat list"

datatype rkey = Key (key_acl: acl) (default_value: "reg_value option")
  (subkeys: "(string \<times> rkey) list")

type_synonym store = "hive \<Rightarrow> rkey"

text \<open>A handle of an open key: its hive and the resolved path segments.\<close>

type_synonym handle = "hive \<times> string list"

datatype win_error = FileNotFoundError | PermissionError | NoMoreItems

datatype access = KEY_READ | KEY_ALL_ACCESS

text \<open>\<open>isinstance(val, str)\<close> for what \<open>QueryValueEx\<close> returns: string types only.\<close>

fun py_str :: "reg_value \<Rightarrow> string option" where
  "py_str (RegSz s) = Some s"
| "py_str (RegExpandSz s) = Some s"
| "py_str _ = None"

fun permits :: "acl \<Rightarrow> access \<Rightarrow> bool" where
  "permits FullAccess a = True"
| "permits ReadOnly a = (a = KEY_READ)"
| "permits NoAccess a = False"

section \<open>Paths and lookup\<close>

text \<open>\<open>OpenKey(hive, "")\<close> opens the hive itself; otherwise the path is split at
  backslashes.\<close>

definition segments :: "string \<Rightarrow> string list" where
  "segments p = (if p = [] then [] else split_on backslash p)"

fun find_child :: "string \<Rightarrow> (string \<times> rkey) list \<Rightarrow> rkey option" where
  "find_child n [] = None"
| "find_child n ((m, c) # cs) = (if lower m = lower n then Some c else find_child n cs)"

fun lookup_key :: "rkey \<Rightarrow> string list \<Rightarrow> rkey option" where
  "lookup_key k [] = Some k"
| "lookup_key k (n # ns) =
     (case find_child n (subkeys k) of None \<Rightarrow> None | Some c \<Rightarrow> lookup_key c ns)"

text \<open>Updates along a path change the first child whose name matches, as lookup
  finds it; \<open>remove_first\<close> drops that child.\<close>

definition with_subkeys :: "((string \<times> rkey) list \<Rightarrow> (string \<times> rkey) list) \<Rightarrow> rkey \<Rightarrow> rkey" where
  "with_subkeys f k = Key (key_acl k) (default_value k) (f (subkeys k))"

fun map_first :: "string \<Rightarrow> (rkey \<Rightarrow> rkey) \<Rightarrow> (string \<times> rkey) list \<Rightarrow> (string \<times> rkey) list" where
  "map_first n f [] = []"
| "map_first n f ((m, c) # cs) =
     (if lower m = lower n then (m, f c) # cs else (m, c) # map_first n f cs)"

fun remove_first :: "string \<Rightarrow> (string \<times> rkey) list \<Rightarrow> (string \<times> rkey) list" where
  "remove_first n [] = []"
| "remove_first n ((m, c) # cs) = (if lower m = lower n then cs else (m, c) # remove_first n cs)"

fun update_at :: "string list \<Rightarrow> (rkey \<Rightarrow> rkey) \<Rightarrow> rkey \<Rightarrow> rkey" where
  "update_at [] f k = f k"
| "update_at (n # ns) f k = with_subkeys (map_first n (update_at ns f)) k"

definition remove_at :: "string list \<Rightarrow> rkey \<Rightarrow> rkey" where
  "remove_at ns k =
     (if ns = [] then k else update_at (butlast ns) (with_subkeys (remove_first (last ns))) k)"

section \<open>The \<open>winreg\<close> calls\<close>

definition OpenKey :: "store \<Rightarrow> hive \<Rightarrow> string \<Rightarrow> access \<Rightarrow> win_error + handle" where
  "OpenKey s h p acc =
     (case lookup_key (s h) (segments p) of
        None \<Rightarrow> Inl FileNotFoundError
      | Some k \<Rightarrow> if permits (key_acl k) acc then Inr (h, segments p) else Inl PermissionError)"

definition EnumKey :: "store \<Rightarrow> handle \<Rightarrow> nat \<Rightarrow> win_error + string" where
  "EnumKey s kh i =
     (case lookup_key (s (fst kh)) (snd kh) of
        None \<Rightarrow> Inl FileNotFoundError
      | Some k \<Rightarrow> if i < length (subkeys k) then Inr (fst (subkeys k ! i)) else Inl NoMoreItems)"

text \<open>\<open>QueryValueEx(key, "")\<close>: the default value; a key without one raises
  \<open>FileNotFoundError\<close>. Named values are never read by the scripts.\<close>

definition QueryDefaultValue :: "store \<Rightarrow> handle \<Rightarrow> win_error + reg_value" where
  "QueryDefaultValue s kh =
     (case lookup_key (s (fst kh)) (snd kh) of
        None \<Rightarrow> Inl FileNotFoundError
      | Some k \<Rightarrow> (case default_value k of None \<Rightarrow> Inl FileNotFoundError | Some v \<Rightarrow> Inr v))"

text \<open>\<open>DeleteKey(hive, path)\<close>: only a key without subkeys, with delete access,
  and never a hive itself.\<close>

definition DeleteKey :: "store \<Rightarrow> hive \<Rightarrow> string \<Rightarrow> win_error + store" where
  "DeleteKey s h p =
     (let ns = segments p in
      if ns = [] then Inl PermissionError
      else case lookup_key (s h) ns of
        None \<Rightarrow> Inl FileNotFoundError
      | Some k \<Rightarrow>
          if key_acl k \<noteq> FullAccess then Inl PermissionError
          else if subkeys k \<noteq> [] then Inl PermissionError
          else Inr (s(h := remove_at ns (s h))))"

section \<open>Well-formed stores\<close>

text \<open>What the registry guarantees of every key: subkey names are non-empty, contain
  no backslash, and are distinct without regard to case.\<close>

fun wf_key :: "rkey \<Rightarrow> bool" where
  "wf_key (Key a v cs) =
     (distinct (map (lower \<circ> fst) cs) \<and>
      (\<forall>(n, c) \<in> set cs. n \<noteq> [] \<and> backslash \<notin> set n \<and> wf_key c))"

definition wf_store :: "store \<Rightarrow> bool" where
  "wf_store s \<longleftrightarrow> (\<forall>h. wf_key (s h))"

text \<open>Every key of a subtree grants full access: what \<open>delete_key\<close> needs.\<close>

fun all_full :: "rkey \<Rightarrow> bool" where
  "all_full (Key a v cs) = (a = FullAccess \<and> (\<forall>(n, c) \<in> set cs. all_full c))"

text \<open>Two paths diverge when, read ignoring case, neither is a prefix of the other:
  an update at one leaves every lookup at the other unchanged.\<close>

fun diverge :: "string list \<Rightarrow> string list \<Rightarrow> bool" where
  "diverge (n # ns) (m # ms) = (if lower n = lower m then diverge ns ms else True)"
| "diverge ns ms = False"

section \<open>Lemmas on keys and paths\<close>

lemma rkey_induct [case_names Key, induct type: rkey]:
  assumes "\<And>a v cs. (\<And>n c. (n, c) \<in> set cs \<Longrightarrow> P c) \<Longrightarrow> P (Key a v cs)"
  shows "P k"
proof (induction k)
  case (Key a v cs)
  show ?case
    by (rule assms, rule Key.IH, assumption) (simp add: prod_set_defs)
qed

lemma subkeys_with_subkeys [simp]: "subkeys (with_subkeys f k) = f (subkeys k)"
  by (simp add: with_subkeys_def)

lemma key_acl_with_subkeys [simp]: "key_acl (with_subkeys f k) = key_acl k"
  by (simp add: with_subkeys_def)

lemma default_value_with_subkeys [simp]: "default_value (with_subkeys f k) = default_value k"
  by (simp add: with_subkeys_def)

lemma with_subkeys_Key [simp]: "with_subkeys f (Key a v cs) = Key a v (f cs)"
  by (simp add: with_subkeys_def)

lemma with_subkeys_comp [simp]: "with_subkeys g (with_subkeys f k) = with_subkeys (g \<circ> f) k"
  by (simp add: with_subkeys_def)

lemma with_subkeys_same: "f (subkeys k) = subkeys k \<Longrightarrow> with_subkeys f k = k"
  by (cases k) simp

lemma lookup_key_append:
  "lookup_key k (xs @ ys) = (case lookup_key k xs of None \<Rightarrow> None | Some c \<Rightarrow> lookup_key c ys)"
  by (induction xs arbitrary: k) (auto split: option.split)

lemma find_child_map_first:
  "find_child m (map_first n f cs) =
     (if lower m = lower n then map_option f (find_child n cs) else find_child m cs)"
  by (induction n f cs rule: map_first.induct) auto

lemma map_first_comp: "map_first n g (map_first n f cs) = map_first n (g \<circ> f) cs"
  by (induction n f cs rule: map_first.induct) auto

lemma map_first_same:
  "find_child n cs = Some c \<Longrightarrow> f c = c \<Longrightarrow> map_first n f cs = cs"
  by (induction n f cs rule: map_first.induct) (auto split: if_splits)

lemma map_first_absent: "find_child n cs = None \<Longrightarrow> map_first n f cs = cs"
  by (induction n f cs rule: map_first.induct) (auto split: if_splits)

lemma remove_first_map_first: "remove_first n (map_first n f cs) = remove_first n cs"
  by (induction n f cs rule: map_first.induct) auto

lemma lookup_update_at:
  "lookup_key (update_at ns f k) ns = map_option f (lookup_key k ns)"
  by (induction ns arbitrary: k) (auto simp: find_child_map_first split: option.split)

lemma update_at_comp: "update_at ns g (update_at ns f k) = update_at ns (g \<circ> f) k"
proof (induction ns arbitrary: k)
  case Nil
  then show ?case by simp
next
  case (Cons n ns)
  have "map_first n (update_at ns g) \<circ> map_first n (update_at ns f) = map_first n (update_at ns (g \<circ> f))"
    by (simp add: fun_eq_iff map_first_comp comp_def Cons.IH)
  then show ?case by (simp add: comp_def)
qed

lemma update_at_Nil_fun [simp]: "update_at [] f = f"
  by (simp add: fun_eq_iff)

lemma update_at_snoc:
  "update_at (ns @ [n]) f = update_at ns (with_subkeys (map_first n f))"
  by (induction ns) (rule ext, simp)+

lemma update_at_absent: "lookup_key k ns = None \<Longrightarrow> update_at ns f k = k"
proof (induction ns arbitrary: k)
  case Nil
  then show ?case by simp
next
  case (Cons n ns)
  show ?case
  proof (cases "find_child n (subkeys k)")
    case None
    then show ?thesis by (simp add: map_first_absent with_subkeys_same)
  next
    case (Some c)
    with Cons have "update_at ns f c = c" by simp
    with Some show ?thesis by (simp add: map_first_same with_subkeys_same)
  qed
qed

lemma remove_at_snoc:
  "remove_at (ns @ [n]) k = update_at ns (with_subkeys (remove_first n)) k"
  by (simp add: remove_at_def)

lemma remove_at_update_at:
  assumes "ns \<noteq> []"
  shows "remove_at ns (update_at ns f k) = remove_at ns k"
proof -
  obtain ms m where ns: "ns = ms @ [m]"
    using assms by (metis rev_exhaust)
  have "with_subkeys (remove_first m) \<circ> with_subkeys (map_first m f) = with_subkeys (remove_first m)"
    by (simp add: fun_eq_iff comp_def remove_first_map_first)
  then show ?thesis
    by (simp add: ns remove_at_snoc update_at_snoc update_at_comp)
qed

lemma remove_at_first_child:
  "remove_at (ns @ [n]) (update_at ns (\<lambda>_. Key a v ((n, c) # cs)) k) =
   update_at ns (\<lambda>_. Key a v cs) k"
proof -
  have eq: "with_subkeys (remove_first n) \<circ> (\<lambda>_. Key a v ((n, c) # cs)) = (\<lambda>_. Key a v cs)"
    by (simp add: fun_eq_iff)
  show ?thesis by (simp only: remove_at_snoc update_at_comp eq)
qed

lemma find_child_remove_first:
  "distinct (map (lower \<circ> fst) cs) \<Longrightarrow> find_child n (remove_first n cs) = None"
proof (induction cs rule: remove_first.induct)
  case (1 n)
  then show ?case by simp
next
  case (2 n m c cs)
  show ?case
  proof (cases "lower m = lower n")
    case True
    have "\<forall>p \<in> set cs. lower (fst p) \<noteq> lower n"
    proof
      fix p assume "p \<in> set cs"
      moreover have "lower m \<notin> (lower \<circ> fst) ` set cs" using "2.prems" by simp
      ultimately show "lower (fst p) \<noteq> lower n" using True by (metis comp_apply image_eqI)
    qed
    then have "find_child n cs = None"
      by (induction cs rule: find_child.induct) auto
    with True show ?thesis by simp
  next
    case False
    with 2 show ?thesis by simp
  qed
qed

lemma segments_join_path [path_simps]:
  "p \<noteq> [] \<Longrightarrow> backslash \<notin> set n \<Longrightarrow> segments (join_path p n) = segments p @ [n]"
  by (simp add: segments_def split_join_path)

lemma segments_not_Nil [simp]: "p \<noteq> [] \<Longrightarrow> segments p \<noteq> []"
  by (simp add: segments_def)

lemma find_child_SomeD:
  "find_child n cs = Some c \<Longrightarrow> \<exists>m. (m, c) \<in> set cs \<and> lower m = lower n"
  by (induction n cs rule: find_child.induct) (auto split: if_splits)

lemma wf_key_subkeys:
  "wf_key k \<Longrightarrow> (n, c) \<in> set (subkeys k) \<Longrightarrow> wf_key c \<and> n \<noteq> [] \<and> backslash \<notin> set n"
  by (cases k) auto

lemma wf_key_distinct: "wf_key k \<Longrightarrow> distinct (map (lower \<circ> fst) (subkeys k))"
  by (cases k) auto

lemma wf_lookup_key: "wf_key k \<Longrightarrow> lookup_key k ns = Some c \<Longrightarrow> wf_key c"
proof (induction ns arbitrary: k)
  case Nil
  then show ?case by simp
next
  case (Cons n ns)
  then obtain c' where c': "find_child n (subkeys k) = Some c'" and "lookup_key c' ns = Some c"
    by (auto split: option.splits)
  moreover from c' obtain m where "(m, c') \<in> set (subkeys k)"
    by (auto dest: find_child_SomeD)
  with Cons.prems have "wf_key c'" by (auto dest: wf_key_subkeys)
  ultimately show ?case using Cons.IH by blast
qed

lemma map_fst_map_first [simp]: "map fst (map_first n f cs) = map fst cs"
  by (induction n f cs rule: map_first.induct) auto

lemma set_map_first:
  "p \<in> set (map_first n f cs) \<Longrightarrow> p \<in> set cs \<or> (\<exists>m c. (m, c) \<in> set cs \<and> p = (m, f c))"
  by (induction n f cs rule: map_first.induct) (auto split: if_splits)

lemma wf_key_with_subkeys:
  assumes "wf_key k"
    and "distinct (map (lower \<circ> fst) (g (subkeys k)))"
    and "\<And>n c. (n, c) \<in> set (g (subkeys k)) \<Longrightarrow> n \<noteq> [] \<and> backslash \<notin> set n \<and> wf_key c"
  shows "wf_key (with_subkeys g k)"
  using assms by (cases k) auto

lemma wf_update_at:
  "wf_key k \<Longrightarrow> (\<And>c. wf_key c \<Longrightarrow> wf_key (f c)) \<Longrightarrow> wf_key (update_at ns f k)"
proof (induction ns arbitrary: k)
  case Nil
  then show ?case by simp
next
  case (Cons n ns)
  have names: "map (lower \<circ> fst) (map_first n (update_at ns f) (subkeys k)) = map (lower \<circ> fst) (subkeys k)"
    by (metis map_fst_map_first map_map)
  show ?case
  proof (simp, rule wf_key_with_subkeys)
    show "wf_key k" by (rule Cons.prems)
    show "distinct (map (lower \<circ> fst) (map_first n (update_at ns f) (subkeys k)))"
      using names wf_key_distinct [OF Cons.prems(1)] by simp
  next
    fix m c
    assume "(m, c) \<in> set (map_first n (update_at ns f) (subkeys k))"
    then show "m \<noteq> [] \<and> backslash \<notin> set m \<and> wf_key c"
      using Cons by (auto dest!: set_map_first dest: wf_key_subkeys)
  qed
qed

lemma set_remove_first: "set (remove_first n cs) \<subseteq> set cs"
  by (induction n cs rule: remove_first.induct) auto

lemma distinct_remove_first:
  "distinct (map g cs) \<Longrightarrow> distinct (map g (remove_first n cs))"
proof (induction n cs rule: remove_first.induct)
  case (1 n)
  then show ?case by simp
next
  case (2 n m c cs)
  then show ?case using set_remove_first [of n cs] by auto
qed

lemma wf_remove_first: "wf_key k \<Longrightarrow> wf_key (with_subkeys (remove_first n) k)"
  by (rule wf_key_with_subkeys)
    (auto dest: wf_key_distinct distinct_remove_first wf_key_subkeys set_remove_first [THEN subsetD])

lemma wf_remove_at: "wf_key k \<Longrightarrow> wf_key (remove_at ns k)"
  by (auto simp: remove_at_def intro: wf_update_at wf_remove_first)

lemma lookup_remove_at_snoc:
  assumes "wf_key k"
  shows "lookup_key (remove_at (ns @ [n]) k) (ns @ [n]) = None"
proof (cases "lookup_key k ns")
  case None
  then show ?thesis by (simp add: remove_at_snoc lookup_key_append lookup_update_at)
next
  case (Some c)
  with assms have "wf_key c" by (rule wf_lookup_key)
  then have "find_child n (remove_first n (subkeys c)) = None"
    by (intro find_child_remove_first wf_key_distinct)
  with Some show ?thesis by (simp add: remove_at_snoc lookup_key_append lookup_update_at)
qed

lemma wf_store_DeleteKey:
  "wf_store s \<Longrightarrow> DeleteKey s h p = Inr s' \<Longrightarrow> wf_store s'"
  by (auto simp: DeleteKey_def wf_store_def Let_def wf_remove_at split: if_splits option.splits)

lemma update_at_same: "lookup_key k ns = Some c \<Longrightarrow> f c = c \<Longrightarrow> update_at ns f k = k"
proof (induction ns arbitrary: k)
  case Nil
  then show ?case by simp
next
  case (Cons n ns)
  then obtain c' where c': "find_child n (subkeys k) = Some c'" and "lookup_key c' ns = Some c"
    by (auto split: option.splits)
  with Cons.IH Cons.prems have "update_at ns f c' = c'" by blast
  with c' show ?case by (simp add: map_first_same with_subkeys_same)
qed

lemma permits_KEY_READ [simp]: "permits a KEY_READ \<longleftrightarrow> a \<noteq> NoAccess"
  by (cases a) simp_all

lemma permits_KEY_ALL_ACCESS [simp]: "permits a KEY_ALL_ACCESS \<longleftrightarrow> a = FullAccess"
  by (cases a) simp_all

lemma wf_store_key: "wf_store s \<Longrightarrow> wf_key (s h)"
  by (simp add: wf_store_def)

lemma all_full_acl: "all_full k \<Longrightarrow> key_acl k = FullAccess"
  by (cases k) simp

lemma with_subkeys_clear_comp: "with_subkeys (\<lambda>_. []) \<circ> with_subkeys f = with_subkeys (\<lambda>_. [])"
  by (simp add: fun_eq_iff comp_def)

lemma lookup_remove_at_self:
  assumes "wf_key k" "ns \<noteq> []"
  shows "lookup_key (remove_at ns k) ns = None"
proof -
  obtain ms n where "ns = ms @ [n]"
    using assms(2) by (metis rev_exhaust)
  then show ?thesis using lookup_remove_at_snoc [OF assms(1)] by simp
qed

lemma find_child_lower_eq: "lower m = lower n \<Longrightarrow> find_child m cs = find_child n cs"
  by (induction n cs rule: find_child.induct) auto

lemma diverge_sym: "diverge ns ms \<Longrightarrow> diverge ms ns"
  by (induction ns ms rule: diverge.induct) (auto split: if_splits)

lemma lookup_update_at_diverge:
  "diverge ns ms \<Longrightarrow> lookup_key (update_at ns f k) ms = lookup_key k ms"
proof (induction ns ms arbitrary: k rule: diverge.induct)
  case (1 n ns m ms)
  show ?case
  proof (cases "lower n = lower m")
    case True
    with "1.prems" have d: "diverge ns ms" by simp
    from True have "find_child m (subkeys k) = find_child n (subkeys k)"
      by (intro find_child_lower_eq) simp
    with True d "1.IH" show ?thesis
      by (simp add: find_child_map_first split: option.split)
  next
    case False
    then show ?thesis by (simp add: find_child_map_first)
  qed
qed simp_all

lemma find_child_member:
  "distinct (map (lower \<circ> fst) cs) \<Longrightarrow> (n, c) \<in> set cs \<Longrightarrow> find_child n cs = Some c"
proof (induction cs)
  case (Cons mc cs)
  obtain m d where mc: "mc = (m, d)" by (cases mc)
  show ?case
  proof (cases "(n, c) = (m, d)")
    case True
    with mc show ?thesis by simp
  next
    case False
    from Cons.prems(2) mc False have "(n, c) \<in> set cs" by auto
    moreover have "lower m \<notin> (lower \<circ> fst) ` set cs" using Cons.prems mc by simp
    ultimately have "lower m \<noteq> lower n" by (metis comp_apply fst_conv image_eqI)
    from Cons.IH [OF _ \<open>(n, c) \<in> set cs\<close>] Cons.prems(1) mc \<open>lower m \<noteq> lower n\<close>
    show ?thesis by simp
  qed
qed simp

lemma remove_first_filter:
  "distinct (map (lower \<circ> fst) cs) \<Longrightarrow> (n, c) \<in> set cs \<Longrightarrow> remove_first n cs = filter (\<lambda>e. e \<noteq> (n, c)) cs"
proof (induction cs)
  case (Cons mc cs)
  obtain m d where mc: "mc = (m, d)" by (cases mc)
  have notin: "lower m \<notin> (lower \<circ> fst) ` set cs" using Cons.prems mc by simp
  show ?case
  proof (cases "(n, c) = (m, d)")
    case True
    then have "(n, c) \<notin> set cs" using notin by (metis comp_apply fst_conv image_eqI)
    then have "filter (\<lambda>e. e \<noteq> (n, c)) cs = cs" by (auto simp: filter_id_conv)
    with True mc show ?thesis by simp
  next
    case False
    from Cons.prems(2) mc False have "(n, c) \<in> set cs" by auto
    then have "lower m \<noteq> lower n" using notin by (metis comp_apply fst_conv image_eqI)
    from Cons.IH [OF _ \<open>(n, c) \<in> set cs\<close>] Cons.prems(1) mc \<open>lower m \<noteq> lower n\<close> False
    show ?thesis by auto
  qed
qed simp

lemma map_first_cong:
  "find_child n cs = Some c \<Longrightarrow> f c = g c \<Longrightarrow> map_first n f cs = map_first n g cs"
  by (induction n f cs rule: map_first.induct) (auto split: if_splits)

lemma update_at_cong:
  "lookup_key k ns = Some c \<Longrightarrow> f c = g c \<Longrightarrow> update_at ns f k = update_at ns g k"
proof (induction ns arbitrary: k)
  case Nil
  then show ?case by simp
next
  case (Cons n ns)
  then obtain c' where c': "find_child n (subkeys k) = Some c'" and "lookup_key c' ns = Some c"
    by (auto split: option.splits)
  with Cons.IH Cons.prems have "update_at ns f c' = update_at ns g c'" by blast
  then have "map_first n (update_at ns f) (subkeys k) = map_first n (update_at ns g) (subkeys k)"
    by (rule map_first_cong [OF c'])
  then show ?case by (simp add: with_subkeys_def)
qed

text \<open>The path the scan builds from an enumerated subkey name opens that subkey.\<close>

lemma lookup_join_child:
  assumes "kp \<noteq> []" "wf_key K" "lookup_key (s h) (segments kp) = Some K" "(n, c) \<in> set (subkeys K)"
  shows "lookup_key (s h) (segments (join_path kp n)) = Some c"
proof -
  from wf_key_subkeys [OF assms(2,4)] have "backslash \<notin> set n" by simp
  with assms(1) have "segments (join_path kp n) = segments kp @ [n]"
    by (simp add: segments_join_path)
  moreover have "find_child n (subkeys K) = Some c"
    using wf_key_distinct [OF assms(2)] assms(4) by (rule find_child_member)
  ultimately show ?thesis using assms(3) by (simp add: lookup_key_append)
qed

end
