(* ===== verification/Clean_Reg.thy ===== *)
theory Clean_Reg
  imports Winreg
begin

text \<open>
  The registry purger \<open>src/scripts/clean_reg.py\<close>: \<open>search_keys\<close> scans the
  immediate subkeys of one key for a search term in the subkey's name or in its
  default value; \<open>delete_key\<close> deletes a key with all its descendants, first
  child first; the module body runs both over six fixed targets. The state of a run
  is the store and the lines printed so far. A \<open>FOUND\<close> line is printed with each
  match, so the scan returns each match paired with its line.
\<close>

section \<open>State and output\<close>

datatype match_reason = KEY_NAME_MATCH | VALUE_MATCH

type_synonym match = "hive \<times> string \<times> match_reason"

text \<open>The printed lines. \<open>FailedDelete p e\<close> is the line of line 53 for a registry error
  \<open>e\<close>; \<open>FailedEncode p\<close> is the same line for the \<open>UnicodeEncodeError\<close> of a print the
  console refused (theory \<open>Console_Run\<close>).\<close>

datatype log_line =
    FoundKeyName string
  | FoundValue string string
  | Attempting string
  | Deleted string
  | FailedDelete string win_error
  | FailedEncode string
  | StartingScan
  | ScanComplete

record rstate =
  reg :: store
  out :: "log_line list"

definition emit :: "log_line \<Rightarrow> rstate \<Rightarrow> rstate" where
  "emit l st = st\<lparr>out := out st @ [l]\<rparr>"

section \<open>\<open>search_keys\<close>\<close>

text \<open>The name test of one subkey (lines 13--16).\<close>

definition check_name :: "hive \<Rightarrow> string \<Rightarrow> string \<Rightarrow> string \<Rightarrow> (match \<times> log_line) list" where
  "check_name h term name full =
     (if contains (lower term) (lower name)
      then [((h, full, KEY_NAME_MATCH), FoundKeyName full)] else [])"

text \<open>The default-value test of one subkey (lines 18--27); every \<open>OSError\<close> of
  \<open>OpenKey\<close> and \<open>QueryValueEx\<close> skips the test.\<close>

definition check_value :: "store \<Rightarrow> hive \<Rightarrow> string \<Rightarrow> string \<Rightarrow> (match \<times> log_line) list" where
  "check_value s h term full =
     (case OpenKey s h full KEY_READ of
        Inl e \<Rightarrow> []
      | Inr sk \<Rightarrow>
          (case QueryDefaultValue s sk of
             Inl e \<Rightarrow> []
           | Inr v \<Rightarrow>
               (case py_str v of
                  None \<Rightarrow> []
                | Some val \<Rightarrow>
                    if contains (lower term) (lower val)
                    then [((h, full, VALUE_MATCH), FoundValue full val)] else [])))"

text \<open>One turn of the loop for the subkey \<open>n\<close> (lines 11--27): the path, the name
  test, then the value test.\<close>

definition subkey_records :: "store \<Rightarrow> hive \<Rightarrow> string \<Rightarrow> string \<Rightarrow> string \<Rightarrow> (match \<times> log_line) list" where
  "subkey_records s h key_path term n =
     (let full_path = join_path key_path n
      in check_name h term n full_path @ check_value s h term full_path)"

definition subkey_count :: "store \<Rightarrow> handle \<Rightarrow> nat" where
  "subkey_count s kh =
     (case lookup_key (s (fst kh)) (snd kh) of None \<Rightarrow> 0 | Some k \<Rightarrow> length (subkeys k))"

text \<open>The \<open>while True\<close> loop over \<open>EnumKey(key, i)\<close> (lines 7--31): it stops at the
  first \<open>OSError\<close>, which the store raises once \<open>i\<close> passes the last subkey.\<close>

function search_loop ::
  "store \<Rightarrow> hive \<Rightarrow> string \<Rightarrow> string \<Rightarrow> handle \<Rightarrow> nat \<Rightarrow> (match \<times> log_line) list
   \<Rightarrow> (match \<times> log_line) list" where
  "search_loop s h key_path term kh i found =
     (case EnumKey s kh i of
        Inl e \<Rightarrow> found
      | Inr sub_key_name \<Rightarrow>
          (let full_path = join_path key_path sub_key_name
           in search_loop s h key_path term kh (Suc i)
                (found @ check_name h term sub_key_name full_path
                       @ check_value s h term full_path)))"
  by pat_completeness auto

termination
  by (relation "measure (\<lambda>(s, h, kp, t, kh, i, found). subkey_count s kh - i)")
    (auto simp: EnumKey_def subkey_count_def split: option.splits if_splits)

text \<open>\<open>search_keys(hive, key_path, search_term)\<close> (lines 3--35): a key that cannot
  be opened yields no match.\<close>

definition search_keys :: "store \<Rightarrow> hive \<Rightarrow> string \<Rightarrow> string \<Rightarrow> (match \<times> log_line) list" where
  "search_keys s h key_path term =
     (case OpenKey s h key_path KEY_READ of
        Inl e \<Rightarrow> []
      | Inr kh \<Rightarrow> search_loop s h key_path term kh 0 [])"

section \<open>\<open>delete_key\<close>\<close>

text \<open>
  \<open>delete_key\<close> (lines 37--53) and its inner \<open>while True\<close> loop call each other,
  so both are one function over the two kinds of call: \<open>DelKey p\<close> is a call of
  \<open>delete_key(hive, p)\<close>, \<open>DelSubkeys p key\<close> one more turn of the loop that
  enumerates subkey 0 of the open handle \<open>key\<close> of \<open>p\<close> and deletes it. Nothing
  bounds the loop: if a subkey survives its own \<open>delete_key\<close> (whose failure is
  caught and printed), subkey 0 is the same key again. Hence the result is
  \<open>None\<close> when the call does not return.
\<close>

datatype del_call = DelKey string | DelSubkeys string handle

partial_function (option) delete_run :: "hive \<Rightarrow> del_call \<Rightarrow> rstate \<Rightarrow> rstate option" where
  "delete_run h c st =
     (case c of
        DelKey key_path \<Rightarrow>
          (let st1 = emit (Attempting key_path) st in
           case OpenKey (reg st1) h key_path KEY_ALL_ACCESS of
             Inl e \<Rightarrow> Some (emit (FailedDelete key_path e) st1)
           | Inr key \<Rightarrow>
               do {
                 st2 \<leftarrow> delete_run h (DelSubkeys key_path key) st1;
                 (case DeleteKey (reg st2) h key_path of
                    Inl e \<Rightarrow> Some (emit (FailedDelete key_path e) st2)
                  | Inr s' \<Rightarrow> Some (emit (Deleted key_path) (st2\<lparr>reg := s'\<rparr>)))
               })
      | DelSubkeys key_path key \<Rightarrow>
          (case EnumKey (reg st) key 0 of
             Inl e \<Rightarrow> Some st
           | Inr sub_key \<Rightarrow>
               do {
                 st' \<leftarrow> delete_run h (DelKey (join_path key_path sub_key)) st;
                 delete_run h (DelSubkeys key_path key) st'
               }))"

definition delete_key :: "hive \<Rightarrow> string \<Rightarrow> rstate \<Rightarrow> rstate option" where
  "delete_key h key_path st = delete_run h (DelKey key_path) st"

section \<open>The module body\<close>

text \<open>A raw path literal such as \<open>r"Software\<backslash>Classes\<backslash>Directory\<backslash>shell"\<close>, from its
  segments.\<close>

fun rpath :: "string list \<Rightarrow> string" where
  "rpath [] = []"
| "rpath [n] = n"
| "rpath (n # ns) = join_path n (rpath ns)"

definition targets :: "(hive \<times> string) list" where
  "targets =
     [(HKEY_CURRENT_USER, rpath [''Software'', ''Classes'', ''Directory'', ''shell'']),
      (HKEY_CURRENT_USER, rpath [''Software'', ''Classes'', ''Directory'', ''Background'', ''shell'']),
      (HKEY_LOCAL_MACHINE, rpath [''SOFTWARE'', ''Classes'', ''Directory'', ''shell'']),
      (HKEY_LOCAL_MACHINE, rpath [''SOFTWARE'', ''Classes'', ''Directory'', ''Background'', ''shell'']),
      (HKEY_CLASSES_ROOT, rpath [''Directory'', ''shell'']),
      (HKEY_CLASSES_ROOT, rpath [''Directory'', ''Background'', ''shell''])]"

definition search_term :: string where
  "search_term = ''Antigravity''"

text \<open>\<open>for h, k, reasoning in keys: delete_key(h, k)\<close> (lines 68--69): the reason
  is not looked at.\<close>

fun delete_matches :: "match list \<Rightarrow> rstate \<Rightarrow> rstate option" where
  "delete_matches [] st = Some st"
| "delete_matches ((h, k, reasoning) # ms) st =
     do { st' \<leftarrow> delete_key h k st; delete_matches ms st' }"

text \<open>The loop over the targets (lines 65--69): scan one target completely, then
  delete what it found.\<close>

fun scan_targets :: "string \<Rightarrow> (hive \<times> string) list \<Rightarrow> rstate \<Rightarrow> rstate option" where
  "scan_targets term [] st = Some st"
| "scan_targets term ((h, path) # ts) st =
     (let keys = search_keys (reg st) h path term;
          st1 = st\<lparr>out := out st @ map snd keys\<rparr>
      in do { st2 \<leftarrow> delete_matches (map fst keys) st1; scan_targets term ts st2 })"

definition main :: "rstate \<Rightarrow> rstate option" where
  "main st =
     do {
       st' \<leftarrow> scan_targets search_term targets (emit StartingScan st);
       Some (emit ScanComplete st')
     }"

section \<open>Specifications\<close>

text \<open>
  What a scan promises, stated over the subkey list of the scanned key rather than
  over \<open>EnumKey\<close> indices and path lookups: in enumeration order, for each subkey
  the name match, then the default-value match, which reads the subkey itself.
\<close>

definition value_hits :: "hive \<Rightarrow> string \<Rightarrow> string \<Rightarrow> string \<Rightarrow> rkey \<Rightarrow> (match \<times> log_line) list" where
  "value_hits h term kp n c =
     (if key_acl c = NoAccess then []
      else case default_value c of
        None \<Rightarrow> []
      | Some v \<Rightarrow>
          (case py_str v of
             None \<Rightarrow> []
           | Some val \<Rightarrow>
               if contains (lower term) (lower val)
               then [((h, join_path kp n, VALUE_MATCH), FoundValue (join_path kp n) val)] else []))"

definition scan_spec :: "hive \<Rightarrow> string \<Rightarrow> string \<Rightarrow> (string \<times> rkey) list \<Rightarrow> (match \<times> log_line) list" where
  "scan_spec h term kp cs =
     concat (map (\<lambda>(n, c). check_name h term n (join_path kp n) @ value_hits h term kp n c) cs)"

text \<open>
  What \<open>delete_key\<close> promises on a subtree it may delete: the subtree is gone, and
  the log names every key of it, each \<open>Attempting\<close> line before the lines of its
  subkeys and each \<open>SUCCESS\<close> line after them (children are deleted first).
\<close>

fun delete_log :: "string \<Rightarrow> rkey \<Rightarrow> log_line list" where
  "delete_log p (Key a v cs) =
     Attempting p # concat (map (\<lambda>(n, c). delete_log (join_path p n) c) cs) @ [Deleted p]"

definition delete_spec :: "hive \<Rightarrow> string \<Rightarrow> rkey \<Rightarrow> rstate \<Rightarrow> rstate" where
  "delete_spec h p k st =
     st\<lparr>reg := (reg st)(h := remove_at (segments p) (reg st h)), out := out st @ delete_log p k\<rparr>"

text \<open>
  The postcondition of one call of \<open>delete_run\<close> when it returns, used for
  fixpoint induction: a \<open>DelKey\<close> call on a key it may open with full access
  returns only if all of the subtree grants full access, and then removes it; on any
  other key it changes nothing. A \<open>DelSubkeys\<close> call returns only if all
  subtrees below the key grant full access, and then empties the key.
\<close>

definition delete_post :: "hive \<Rightarrow> del_call \<Rightarrow> rstate \<Rightarrow> rstate \<Rightarrow> bool" where
  "delete_post h c st r =
     (case c of
        DelKey p \<Rightarrow>
          (case lookup_key (reg st h) (segments p) of
             None \<Rightarrow> True
           | Some k \<Rightarrow> p \<noteq> [] \<and> wf_key k \<longrightarrow>
               (if key_acl k = FullAccess
                then all_full k \<and> reg r = (reg st)(h := remove_at (segments p) (reg st h))
                else reg r = reg st))
      | DelSubkeys p kh \<Rightarrow>
          (case lookup_key (reg st h) (segments p) of
             None \<Rightarrow> True
           | Some k \<Rightarrow> p \<noteq> [] \<and> kh = (h, segments p) \<and> wf_key k \<longrightarrow>
               (\<forall>(n, c) \<in> set (subkeys k). all_full c) \<and>
               reg r = (reg st)(h := update_at (segments p) (with_subkeys (\<lambda>_. [])) (reg st h))))"

section \<open>Example stores\<close>

text \<open>
  Concrete stores for the witnesses: the context-menu tree of the current user with
  three entries (the examples of the specification's testable properties), and the
  same tree with one protected subkey under the matched entry.
\<close>

definition demo_shell :: rkey where
  "demo_shell = Key FullAccess None
     [(''AntigravityShell'', Key FullAccess (Some (RegSz ''Open with Antigravity''))
         [(''command'', Key FullAccess (Some (RegExpandSz ''ag.exe %V'')) [])]),
      (''Foo'', Key FullAccess (Some (RegSz ''Launch Antigravity Here'')) []),
      (''Bar'', Key FullAccess (Some (RegSz ''Open PowerShell'')) [])]"

definition demo_hive :: "rkey \<Rightarrow> rkey" where
  "demo_hive sh = Key FullAccess None [(''Software'', Key FullAccess None [(''Classes'',
      Key FullAccess None [(''Directory'', Key FullAccess None [(''shell'', sh)])])])]"

definition demo_state :: "rkey \<Rightarrow> rstate" where
  "demo_state sh = \<lparr>reg = (\<lambda>h. Key FullAccess None [])(HKEY_CURRENT_USER := demo_hive sh), out = []\<rparr>"

definition shell_path :: string where
  "shell_path = rpath [''Software'', ''Classes'', ''Directory'', ''shell'']"

definition locked_shell :: rkey where
  "locked_shell = Key FullAccess None
     [(''AntigravityShell'', Key FullAccess (Some (RegSz ''Open with Antigravity''))
         [(''command'', Key ReadOnly (Some (RegExpandSz ''ag.exe %V'')) [])])]"

section \<open>Lemmas\<close>

declare search_loop.simps [simp del]
declare delete_run.simps [code]

lemma reg_emit [simp]: "reg (emit l st) = reg st"
  by (simp add: emit_def)

lemma out_emit [simp]: "out (emit l st) = out st @ [l]"
  by (simp add: emit_def)

lemma delete_run_DelKey:
  "delete_run h (DelKey p) st =
     (case OpenKey (reg st) h p KEY_ALL_ACCESS of
        Inl e \<Rightarrow> Some (emit (FailedDelete p e) (emit (Attempting p) st))
      | Inr key \<Rightarrow>
          do {
            st2 \<leftarrow> delete_run h (DelSubkeys p key) (emit (Attempting p) st);
            (case DeleteKey (reg st2) h p of
               Inl e \<Rightarrow> Some (emit (FailedDelete p e) st2)
             | Inr s' \<Rightarrow> Some (emit (Deleted p) (st2\<lparr>reg := s'\<rparr>)))
          })"
  by (subst delete_run.simps) (simp add: Let_def)

lemma delete_run_DelSubkeys:
  "delete_run h (DelSubkeys p kh) st =
     (case EnumKey (reg st) kh 0 of
        Inl e \<Rightarrow> Some st
      | Inr sub \<Rightarrow>
          do { st' \<leftarrow> delete_run h (DelKey (join_path p sub)) st; delete_run h (DelSubkeys p kh) st' })"
  by (subst delete_run.simps) simp

lemma delete_subkeys_run:
  assumes children: "\<And>n c q st'. (n, c) \<in> set rest \<Longrightarrow> q \<noteq> [] \<Longrightarrow>
             lookup_key (reg st' h) (segments q) = Some c \<Longrightarrow>
             delete_run h (DelKey q) st' = Some (delete_spec h q c st')"
    and p: "p \<noteq> []"
    and names: "\<forall>(n, c) \<in> set rest. backslash \<notin> set n"
    and S: "lookup_key S (segments p) = Some k"
    and st: "reg st h = update_at (segments p) (\<lambda>_. Key a v rest) S"
  shows "delete_run h (DelSubkeys p (h, segments p)) st =
           Some (st\<lparr>reg := (reg st)(h := update_at (segments p) (\<lambda>_. Key a v []) S),
                   out := out st @ concat (map (\<lambda>(n, c). delete_log (join_path p n) c) rest)\<rparr>)"
  using children names st
proof (induction rest arbitrary: st)
  case Nil
  from Nil.prems(3) S have "EnumKey (reg st) (h, segments p) 0 = Inl NoMoreItems"
    by (simp add: EnumKey_def lookup_update_at)
  moreover from Nil.prems(3) have "(reg st)(h := update_at (segments p) (\<lambda>_. Key a v []) S) = reg st"
    by (metis fun_upd_triv)
  ultimately show ?case by (simp add: delete_run_DelSubkeys)
next
  case (Cons nc rest)
  obtain n c where nc: "nc = (n, c)" by (cases nc)
  let ?q = "join_path p n"
  from Cons.prems(3) S nc have enum: "EnumKey (reg st) (h, segments p) 0 = Inr n"
    by (simp add: EnumKey_def lookup_update_at)
  from Cons.prems(2) nc p have seg: "segments ?q = segments p @ [n]"
    by (simp add: segments_join_path)
  from Cons.prems(3) S nc have "lookup_key (reg st h) (segments ?q) = Some c"
    by (simp add: seg lookup_key_append lookup_update_at)
  with Cons.prems(1) nc p have child: "delete_run h (DelKey ?q) st = Some (delete_spec h ?q c st)"
    by (metis join_path_not_Nil list.set_intros(1))
  let ?st' = "delete_spec h ?q c st"
  have st': "reg ?st' h = update_at (segments p) (\<lambda>_. Key a v rest) S"
    using Cons.prems(3) nc by (simp add: delete_spec_def seg remove_at_first_child)
  have ch: "\<And>n c q st'. (n, c) \<in> set rest \<Longrightarrow> q \<noteq> [] \<Longrightarrow>
             lookup_key (reg st' h) (segments q) = Some c \<Longrightarrow>
             delete_run h (DelKey q) st' = Some (delete_spec h q c st')"
    using Cons.prems(1) by auto
  have nm: "\<forall>(n, c) \<in> set rest. backslash \<notin> set n"
    using Cons.prems(2) by simp
  have rest:
    "delete_run h (DelSubkeys p (h, segments p)) ?st' =
       Some (?st'\<lparr>reg := (reg ?st')(h := update_at (segments p) (\<lambda>_. Key a v []) S),
                  out := out ?st' @ concat (map (\<lambda>(n, c). delete_log (join_path p n) c) rest)\<rparr>)"
    by (rule Cons.IH [OF ch nm st'])
  show ?case
    by (subst delete_run_DelSubkeys) (simp add: enum child rest nc, simp add: delete_spec_def)
qed

lemma delete_run_DelKey_spec:
  assumes "p \<noteq> []" and "wf_key k" and "lookup_key (reg st h) (segments p) = Some k"
    and "all_full k"
  shows "delete_run h (DelKey p) st = Some (delete_spec h p k st)"
  using assms
proof (induction k arbitrary: p st)
  case (Key a v cs)
  let ?S = "reg st h" and ?ns = "segments p"
  let ?st1 = "emit (Attempting p) st"
  from Key.prems have full: "a = FullAccess" and kids: "\<forall>(n, c) \<in> set cs. all_full c \<and> wf_key c"
    and names: "\<forall>(n, c) \<in> set cs. backslash \<notin> set n"
    by auto
  have open_ok: "OpenKey (reg st) h p KEY_ALL_ACCESS = Inr (h, ?ns)"
    using Key.prems(3) full by (simp add: OpenKey_def)
  have children: "\<And>n c q st'. (n, c) \<in> set cs \<Longrightarrow> q \<noteq> [] \<Longrightarrow>
      lookup_key (reg st' h) (segments q) = Some c \<Longrightarrow>
      delete_run h (DelKey q) st' = Some (delete_spec h q c st')"
    using Key.IH kids by blast
  have same: "reg ?st1 h = update_at ?ns (\<lambda>_. Key a v cs) ?S"
    using Key.prems(3) by (simp add: update_at_same)
  have drain: "delete_run h (DelSubkeys p (h, ?ns)) ?st1 =
      Some (?st1\<lparr>reg := (reg ?st1)(h := update_at ?ns (\<lambda>_. Key a v []) ?S),
                 out := out ?st1 @ concat (map (\<lambda>(n, c). delete_log (join_path p n) c) cs)\<rparr>)"
    by (rule delete_subkeys_run [OF children Key.prems(1) names Key.prems(3) same])
  have del: "DeleteKey ((reg st)(h := update_at ?ns (\<lambda>_. Key a v []) ?S)) h p =
      Inr ((reg st)(h := remove_at ?ns ?S))"
    using Key.prems(1,3) full
    by (simp add: DeleteKey_def Let_def lookup_update_at remove_at_update_at)
  show ?case
    by (simp add: delete_run_DelKey open_ok drain del delete_spec_def)
qed

lemma delete_post_DelSubkeys_step:
  assumes IH: "\<And>h' c' st' r'. f h' c' st' = Some r' \<Longrightarrow> delete_post h' c' st' r'"
    and run: "(case EnumKey (reg st) kh 0 of
                 Inl e \<Rightarrow> Some st
               | Inr sub \<Rightarrow> f h (DelKey (join_path p sub)) st \<bind> f h (DelSubkeys p kh)) = Some r"
  shows "delete_post h (DelSubkeys p kh) st r"
proof (cases "lookup_key (reg st h) (segments p)")
  case None
  then show ?thesis by (simp add: delete_post_def)
next
  case (Some k)
  let ?ns = "segments p" and ?S = "reg st h"
  show ?thesis
  proof (cases "p \<noteq> [] \<and> kh = (h, ?ns) \<and> wf_key k")
    case False
    with Some show ?thesis by (auto simp: delete_post_def)
  next
    case True
    then have p: "p \<noteq> []" and kh: "kh = (h, ?ns)" and wf: "wf_key k" by auto
    show ?thesis
    proof (cases "subkeys k")
      case Nil
      with run Some kh have "r = st" by (simp add: EnumKey_def)
      moreover have "update_at ?ns (with_subkeys (\<lambda>_. [])) ?S = ?S"
        using Some Nil by (simp add: update_at_same with_subkeys_same)
      ultimately show ?thesis using Some Nil by (simp add: delete_post_def)
    next
      case (Cons nc rest)
      obtain n c where nc: "nc = (n, c)" by (cases nc)
      with run Some kh Cons obtain st' where
        f1: "f h (DelKey (join_path p n)) st = Some st'" and f2: "f h (DelSubkeys p kh) st' = Some r"
        by (auto simp: EnumKey_def split: Option.bind_splits)
      from wf Cons nc have c: "wf_key c" "backslash \<notin> set n"
        by (auto dest: wf_key_subkeys [where n = n and c = c])
      with p have seg: "segments (join_path p n) = ?ns @ [n]" by (simp add: segments_join_path)
      from Some Cons nc have lk: "lookup_key ?S (?ns @ [n]) = Some c" by (simp add: lookup_key_append)
      from IH [OF f1] have post1:
          "if key_acl c = FullAccess then all_full c \<and> reg st' = (reg st)(h := remove_at (?ns @ [n]) ?S)
           else reg st' = reg st"
        using p c lk by (simp add: delete_post_def seg)
      show ?thesis
      proof (cases "key_acl c = FullAccess")
        case False
        with post1 have "reg st' = reg st" by simp
        with IH [OF f2] Some p kh wf have "\<forall>(n, c) \<in> set (subkeys k). all_full c"
          by (simp add: delete_post_def)
        with Cons nc False show ?thesis by (auto dest: all_full_acl)
      next
        case full: True
        let ?k' = "with_subkeys (remove_first n) k"
        from full post1 have allc: "all_full c" and st': "reg st' = (reg st)(h := remove_at (?ns @ [n]) ?S)"
          by simp_all
        have lk': "lookup_key (reg st' h) ?ns = Some ?k'"
          using Some by (simp add: st' remove_at_snoc lookup_update_at)
        have "wf_key ?k'" using wf by (rule wf_remove_first)
        with IH [OF f2] lk' p kh have post2: "\<forall>(n, c) \<in> set (subkeys ?k'). all_full c"
          "reg r = (reg st')(h := update_at ?ns (with_subkeys (\<lambda>_. [])) (reg st' h))"
          by (simp_all add: delete_post_def)
        from post2(1) Cons nc allc have "\<forall>(n, c) \<in> set (subkeys k). all_full c" by auto
        moreover have "reg r = (reg st)(h := update_at ?ns (with_subkeys (\<lambda>_. [])) ?S)"
          using post2(2) by (simp add: st' remove_at_snoc update_at_comp with_subkeys_clear_comp)
        ultimately show ?thesis using Some p kh wf by (simp add: delete_post_def)
      qed
    qed
  qed
qed

lemma delete_post_DelKey_step:
  assumes IH: "\<And>h' c' st' r'. f h' c' st' = Some r' \<Longrightarrow> delete_post h' c' st' r'"
    and run: "(let st1 = emit (Attempting p) st in
               case OpenKey (reg st1) h p KEY_ALL_ACCESS of
                 Inl e \<Rightarrow> Some (emit (FailedDelete p e) st1)
               | Inr key \<Rightarrow>
                   f h (DelSubkeys p key) st1 \<bind>
                   (\<lambda>st2. case DeleteKey (reg st2) h p of
                       Inl e \<Rightarrow> Some (emit (FailedDelete p e) st2)
                     | Inr s' \<Rightarrow> Some (emit (Deleted p) (st2\<lparr>reg := s'\<rparr>)))) = Some r"
  shows "delete_post h (DelKey p) st r"
proof (cases "lookup_key (reg st h) (segments p)")
  case None
  then show ?thesis by (simp add: delete_post_def)
next
  case (Some k)
  let ?ns = "segments p" and ?S = "reg st h" and ?st1 = "emit (Attempting p) st"
  show ?thesis
  proof (cases "key_acl k = FullAccess")
    case False
    then have "\<not> permits (key_acl k) KEY_ALL_ACCESS" by (cases "key_acl k") simp_all
    with run Some have "reg r = reg st" by (auto simp: OpenKey_def)
    with Some False show ?thesis by (simp add: delete_post_def)
  next
    case full: True
    with run Some obtain st2 where
      f1: "f h (DelSubkeys p (h, ?ns)) ?st1 = Some st2" and
      f2: "(case DeleteKey (reg st2) h p of
              Inl e \<Rightarrow> Some (emit (FailedDelete p e) st2)
            | Inr s' \<Rightarrow> Some (emit (Deleted p) (st2\<lparr>reg := s'\<rparr>))) = Some r"
      by (auto simp: OpenKey_def split: Option.bind_splits)
    show ?thesis
    proof (cases "p \<noteq> [] \<and> wf_key k")
      case False
      with Some show ?thesis by (auto simp: delete_post_def)
    next
      case True
      let ?k0 = "with_subkeys (\<lambda>_. []) k"
      from IH [OF f1] Some True have kids: "\<forall>(n, c) \<in> set (subkeys k). all_full c"
        and st2: "reg st2 = (reg st)(h := update_at ?ns (with_subkeys (\<lambda>_. [])) ?S)"
        by (simp_all add: delete_post_def)
      have "DeleteKey (reg st2) h p = Inr ((reg st)(h := remove_at ?ns ?S))"
        using Some True full
        by (simp add: st2 DeleteKey_def Let_def lookup_update_at remove_at_update_at)
      with f2 have "reg r = (reg st)(h := remove_at ?ns ?S)" by auto
      moreover from kids full have "all_full k" by (cases k) simp
      ultimately show ?thesis using Some full True by (simp add: delete_post_def)
    qed
  qed
qed

lemma delete_run_post:
  assumes ret: "delete_run h c st = Some r"
  shows "delete_post h c st r"
proof (rule delete_run.raw_induct [where P = delete_post, OF _ ret])
  fix f h c st r
  assume IH: "\<And>h' c' st' r'. f h' c' st' = Some r' \<Longrightarrow> delete_post h' c' st' r'"
    and body: "(case c of
        DelKey key_path \<Rightarrow>
          (let st1 = emit (Attempting key_path) st
           in case OpenKey (reg st1) h key_path KEY_ALL_ACCESS of
                Inl e \<Rightarrow> Some (emit (FailedDelete key_path e) st1)
              | Inr key \<Rightarrow>
                  f h (DelSubkeys key_path key) st1 \<bind>
                  (\<lambda>st2. case DeleteKey (reg st2) h key_path of
                      Inl e \<Rightarrow> Some (emit (FailedDelete key_path e) st2)
                    | Inr s' \<Rightarrow> Some (emit (Deleted key_path) (st2\<lparr>reg := s'\<rparr>))))
      | DelSubkeys key_path key \<Rightarrow>
          (case EnumKey (reg st) key 0 of
             Inl e \<Rightarrow> Some st
           | Inr sub_key \<Rightarrow>
               f h (DelKey (join_path key_path sub_key)) st \<bind> f h (DelSubkeys key_path key))) = Some r"
  show "delete_post h c st r"
  proof (cases c)
    case (DelKey p)
    have "delete_post h (DelKey p) st r"
      using IH body [unfolded DelKey del_call.case] by (rule delete_post_DelKey_step)
    with DelKey show ?thesis by simp
  next
    case (DelSubkeys p kh)
    have "delete_post h (DelSubkeys p kh) st r"
      using IH body [unfolded DelSubkeys del_call.case] by (rule delete_post_DelSubkeys_step)
    with DelSubkeys show ?thesis by simp
  qed
qed

text \<open>The \<open>EnumKey\<close> loop visits every subkey once, in order.\<close>

lemma search_loop_unfold:
  assumes "lookup_key (s (fst kh)) (snd kh) = Some K"
  shows "search_loop s h kp term kh i acc =
           acc @ concat (map (\<lambda>(n, c). subkey_records s h kp term n) (drop i (subkeys K)))"
proof (induction "length (subkeys K) - i" arbitrary: i acc)
  case 0
  then have "EnumKey s kh i = Inl NoMoreItems"
    using assms by (simp add: EnumKey_def)
  with "0" show ?case by (subst search_loop.simps) simp
next
  case (Suc m)
  let ?cs = "subkeys K"
  from Suc.hyps have i: "i < length ?cs" by simp
  then have enum: "EnumKey s kh i = Inr (fst (?cs ! i))"
    using assms by (simp add: EnumKey_def)
  from i have drop: "drop i ?cs = (fst (?cs ! i), snd (?cs ! i)) # drop (Suc i) ?cs"
    by (simp add: Cons_nth_drop_Suc)
  from Suc.hyps have "m = length ?cs - Suc i" by simp
  note IH = Suc.hyps(1) [OF this]
  show ?case
    by (subst search_loop.simps) (simp add: enum IH drop subkey_records_def Let_def case_prod_beta)
qed

lemma check_value_child:
  assumes "kp \<noteq> []" "wf_key K" "lookup_key (s h) (segments kp) = Some K" "(n, c) \<in> set (subkeys K)"
  shows "check_value s h term (join_path kp n) = value_hits h term kp n c"
  using lookup_join_child [where s = s and h = h, OF assms]
  by (simp add: check_value_def value_hits_def OpenKey_def QueryDefaultValue_def split: option.split)

lemma search_loop_spec:
  assumes "kp \<noteq> []" "wf_key K" "lookup_key (s h) (segments kp) = Some K"
  shows "search_loop s h kp term (h, segments kp) i acc =
           acc @ scan_spec h term kp (drop i (subkeys K))"
proof -
  have "\<forall>x \<in> set (drop i (subkeys K)). (\<lambda>(n, c). subkey_records s h kp term n) x =
          (\<lambda>(n, c). check_name h term n (join_path kp n) @ value_hits h term kp n c) x"
    using check_value_child [where s = s and h = h, OF assms] by (auto simp: subkey_records_def dest: in_set_dropD)
  then show ?thesis
    using search_loop_unfold [of s "(h, segments kp)" K h kp "term" i acc] assms(3)
    by (simp add: scan_spec_def cong: map_cong)
qed

lemma delete_run_wf:
  assumes ret: "delete_run h c st = Some r"
  shows "wf_store (reg st) \<longrightarrow> wf_store (reg r)"
proof (rule delete_run.raw_induct [where P = "\<lambda>h c st r. wf_store (reg st) \<longrightarrow> wf_store (reg r)", OF _ ret])
  fix f h c st r
  assume IH: "\<And>h' c' st' r'. f h' c' st' = Some r' \<Longrightarrow> wf_store (reg st') \<longrightarrow> wf_store (reg r')"
    and body: "(case c of
        DelKey key_path \<Rightarrow>
          (let st1 = emit (Attempting key_path) st
           in case OpenKey (reg st1) h key_path KEY_ALL_ACCESS of
                Inl e \<Rightarrow> Some (emit (FailedDelete key_path e) st1)
              | Inr key \<Rightarrow>
                  f h (DelSubkeys key_path key) st1 \<bind>
                  (\<lambda>st2. case DeleteKey (reg st2) h key_path of
                      Inl e \<Rightarrow> Some (emit (FailedDelete key_path e) st2)
                    | Inr s' \<Rightarrow> Some (emit (Deleted key_path) (st2\<lparr>reg := s'\<rparr>))))
      | DelSubkeys key_path key \<Rightarrow>
          (case EnumKey (reg st) key 0 of
             Inl e \<Rightarrow> Some st
           | Inr sub_key \<Rightarrow>
               f h (DelKey (join_path key_path sub_key)) st \<bind> f h (DelSubkeys key_path key))) = Some r"
  show "wf_store (reg st) \<longrightarrow> wf_store (reg r)"
  proof (cases c)
    case (DelKey p)
    with body IH show ?thesis
      by (auto simp: Let_def split: sum.splits Option.bind_splits) (metis reg_emit wf_store_DeleteKey)
  next
    case (DelSubkeys p kh)
    with body IH show ?thesis
      by (auto split: sum.splits Option.bind_splits)
  qed
qed

lemma delete_run_out_prefix:
  assumes ret: "delete_run h c st = Some r"
  shows "prefix (out st) (out r)"
proof (rule delete_run.raw_induct [where P = "\<lambda>h c st r. prefix (out st) (out r)", OF _ ret])
  fix f h c st r
  assume IH: "\<And>h' c' st' r'. f h' c' st' = Some r' \<Longrightarrow> prefix (out st') (out r')"
    and body: "(case c of
        DelKey key_path \<Rightarrow>
          (let st1 = emit (Attempting key_path) st
           in case OpenKey (reg st1) h key_path KEY_ALL_ACCESS of
                Inl e \<Rightarrow> Some (emit (FailedDelete key_path e) st1)
              | Inr key \<Rightarrow>
                  f h (DelSubkeys key_path key) st1 \<bind>
                  (\<lambda>st2. case DeleteKey (reg st2) h key_path of
                      Inl e \<Rightarrow> Some (emit (FailedDelete key_path e) st2)
                    | Inr s' \<Rightarrow> Some (emit (Deleted key_path) (st2\<lparr>reg := s'\<rparr>))))
      | DelSubkeys key_path key \<Rightarrow>
          (case EnumKey (reg st) key 0 of
             Inl e \<Rightarrow> Some st
           | Inr sub_key \<Rightarrow>
               f h (DelKey (join_path key_path sub_key)) st \<bind> f h (DelSubkeys key_path key))) = Some r"
  show "prefix (out st) (out r)"
  proof (cases c)
    case (DelKey p)
    with body IH show ?thesis
      by (auto simp: Let_def split: sum.splits Option.bind_splits dest!: IH dest: append_prefixD)
  next
    case (DelSubkeys p kh)
    with body IH show ?thesis
      by (auto split: sum.splits Option.bind_splits dest!: IH intro: prefix_order.trans)
  qed
qed

lemma delete_key_frame:
  "delete_key h p st = Some r \<Longrightarrow> (wf_store (reg st) \<longrightarrow> wf_store (reg r)) \<and> prefix (out st) (out r)"
  unfolding delete_key_def using delete_run_wf delete_run_out_prefix by blast

lemma delete_matches_frame:
  "delete_matches ms st = Some r \<Longrightarrow> (wf_store (reg st) \<longrightarrow> wf_store (reg r)) \<and> prefix (out st) (out r)"
proof (induction ms st rule: delete_matches.induct)
  case (1 st)
  then show ?case by simp
next
  case (2 h k reasoning ms st)
  then obtain st' where d: "delete_key h k st = Some st'" and m: "delete_matches ms st' = Some r"
    by (auto split: Option.bind_splits)
  from delete_key_frame [OF d] "2.IH" [OF d m] show ?case
    by (auto intro: prefix_order.trans)
qed

lemma scan_targets_frame:
  "scan_targets sterm ts st = Some r \<Longrightarrow> (wf_store (reg st) \<longrightarrow> wf_store (reg r)) \<and> prefix (out st) (out r)"
proof (induction ts arbitrary: st)
  case (Cons hp ts)
  obtain h path where hp: "hp = (h, path)" by (cases hp)
  from Cons.prems show ?case
    unfolding hp
    by (auto simp: Let_def split: Option.bind_splits dest!: delete_matches_frame Cons.IH;
        meson append_prefixD prefix_order.trans)
qed simp

section \<open>Properties\<close>

lemmas demo_simps = demo_state_def demo_hive_def shell_path_def segments_def lower_char_def
  join_path_def backslash_def

lemma demo_antigravity:
  "lookup_key (reg (demo_state demo_shell) HKEY_CURRENT_USER) (segments (join_path shell_path ''AntigravityShell'')) =
     Some (Key FullAccess (Some (RegSz ''Open with Antigravity''))
         [(''command'', Key FullAccess (Some (RegExpandSz ''ag.exe %V'')) [])])"
  "wf_key (Key FullAccess (Some (RegSz ''Open with Antigravity''))
         [(''command'', Key FullAccess (Some (RegExpandSz ''ag.exe %V'')) [])])"
  "all_full (Key FullAccess (Some (RegSz ''Open with Antigravity''))
         [(''command'', Key FullAccess (Some (RegExpandSz ''ag.exe %V'')) [])])"
  by (simp_all add: demo_simps demo_shell_def)

lemma demo_wf_store: "wf_store (reg (demo_state demo_shell))"
  by (simp add: wf_store_def demo_simps demo_shell_def)

text \<open>
  C1. The call \<open>delete_key(hive, path)\<close> on an existing key returns if and only if
  the key cannot be opened with full access, or every key of its subtree grants full
  access. Otherwise it never returns: a subkey whose own deletion fails (the failure is
  caught and printed) stays subkey 0, and the \<open>while True\<close> loop enumerates it again
  forever. The witness is the smallest such store: one read-only subkey.
\<close>

theorem delete_key_terminates_iff:
  assumes "p \<noteq> []" and "wf_key k" and "lookup_key (reg st h) (segments p) = Some k"
  shows "delete_key h p st \<noteq> None \<longleftrightarrow> (key_acl k = FullAccess \<longrightarrow> all_full k)"
proof
  assume "delete_key h p st \<noteq> None"
  then obtain r where "delete_run h (DelKey p) st = Some r" by (auto simp: delete_key_def)
  then have "delete_post h (DelKey p) st r" by (rule delete_run_post)
  with assms show "key_acl k = FullAccess \<longrightarrow> all_full k" by (simp add: delete_post_def)
next
  assume full: "key_acl k = FullAccess \<longrightarrow> all_full k"
  show "delete_key h p st \<noteq> None"
  proof (cases "key_acl k = FullAccess")
    case True
    with full assms show ?thesis by (simp add: delete_key_def delete_run_DelKey_spec)
  next
    case False
    then have "\<not> permits (key_acl k) KEY_ALL_ACCESS" by (cases "key_acl k") simp_all
    with assms(3) show ?thesis
      by (simp add: delete_key_def delete_run_DelKey OpenKey_def)
  qed
qed

theorem delete_key_terminates_iff_witness:
  "delete_key HKEY_CURRENT_USER (join_path shell_path ''AntigravityShell'') (demo_state locked_shell) = None"
proof -
  let ?k = "Key FullAccess (Some (RegSz ''Open with Antigravity''))
         [(''command'', Key ReadOnly (Some (RegExpandSz ''ag.exe %V'')) [])]"
  have "join_path shell_path ''AntigravityShell'' \<noteq> []" and "wf_key ?k"
    and "lookup_key (reg (demo_state locked_shell) HKEY_CURRENT_USER) (segments (join_path shell_path ''AntigravityShell'')) = Some ?k"
    by (simp_all add: demo_simps locked_shell_def)
  from delete_key_terminates_iff [OF this] show ?thesis by simp
qed

text \<open>
  C2. On a key whose whole subtree grants full access, \<open>delete_key\<close> returns, and
  its effect is that of the specification \<open>delete_spec\<close>: the subtree is removed
  from the store and nothing else changes, and the printed lines are, for every key of
  the subtree, \<open>Attempting to delete\<close> before the lines of its subkeys and
  \<open>SUCCESS\<close> after them, subkeys in enumeration order: leaves are deleted before
  their ancestors.
\<close>

theorem delete_key_refines_spec:
  assumes "p \<noteq> []" and "wf_key k" and "lookup_key (reg st h) (segments p) = Some k"
    and "all_full k"
  shows "delete_key h p st = Some (delete_spec h p k st)"
  using assms unfolding delete_key_def by (rule delete_run_DelKey_spec)

theorem delete_key_refines_spec_witness:
  "map_option out (delete_key HKEY_CURRENT_USER (join_path shell_path ''AntigravityShell'') (demo_state demo_shell)) =
     Some [Attempting (join_path shell_path ''AntigravityShell''), Attempting (join_path (join_path shell_path ''AntigravityShell'') ''command''), Deleted (join_path (join_path shell_path ''AntigravityShell'') ''command''), Deleted (join_path shell_path ''AntigravityShell'')]"
proof -
  have "join_path shell_path ''AntigravityShell'' \<noteq> []" by simp
  from delete_key_refines_spec [OF this demo_antigravity(2,1,3)] show ?thesis
    by (simp add: delete_spec_def demo_state_def)
qed

text \<open>
  C3. On a readable key of a well-formed store, \<open>search_keys\<close> returns exactly the
  matches of the specification \<open>scan_spec\<close>: for each subkey in enumeration order, a
  \<open>KEY_NAME_MATCH\<close> when the term occurs in the subkey's name ignoring case, then a
  \<open>VALUE_MATCH\<close> when the subkey itself is readable and its default value is a
  string containing the term ignoring case; each with its \<open>FOUND\<close> line. The
  \<open>EnumKey\<close> index loop reads every subkey once and the path it builds opens that
  very subkey. The witness is the specification's examples: a name match (also matching
  by value, hence reported twice), a value-only match, and a subkey matching neither.
\<close>

theorem search_keys_refines_spec:
  assumes "kp \<noteq> []" "wf_key K" "lookup_key (s h) (segments kp) = Some K"
    and "key_acl K \<noteq> NoAccess"
  shows "search_keys s h kp term = scan_spec h term kp (subkeys K)"
  using assms by (simp add: search_keys_def OpenKey_def search_loop_spec)

theorem search_keys_refines_spec_witness:
  "search_keys (reg (demo_state demo_shell)) HKEY_CURRENT_USER shell_path ''Antigravity'' =
     [((HKEY_CURRENT_USER, join_path shell_path ''AntigravityShell'', KEY_NAME_MATCH), FoundKeyName (join_path shell_path ''AntigravityShell'')),
      ((HKEY_CURRENT_USER, join_path shell_path ''AntigravityShell'', VALUE_MATCH),
        FoundValue (join_path shell_path ''AntigravityShell'') ''Open with Antigravity''),
      ((HKEY_CURRENT_USER, join_path shell_path ''Foo'', VALUE_MATCH),
        FoundValue (join_path shell_path ''Foo'') ''Launch Antigravity Here'')]"
proof -
  have "shell_path \<noteq> []" and "wf_key demo_shell"
    and "lookup_key (reg (demo_state demo_shell) HKEY_CURRENT_USER) (segments shell_path) = Some demo_shell"
    and "key_acl demo_shell \<noteq> NoAccess"
    by (simp_all add: demo_simps demo_shell_def)
  from search_keys_refines_spec [of shell_path demo_shell "reg (demo_state demo_shell)", OF this]
  show ?thesis
    by (simp add: scan_spec_def demo_shell_def check_name_def value_hits_def lower_char_def)
qed

text \<open>
  C4. Matches are not deduplicated and the reason is ignored: a key reported both by
  name and by value is deleted by the first call, and the second call prints one more
  \<open>Attempting\<close> line and a \<open>FileNotFoundError\<close> failure and changes nothing.
\<close>

theorem delete_key_twice:
  assumes "wf_store (reg st)" "p \<noteq> []" "wf_key k" "lookup_key (reg st h) (segments p) = Some k"
    and "all_full k"
  shows "delete_matches [(h, p, KEY_NAME_MATCH), (h, p, VALUE_MATCH)] st =
           Some (emit (FailedDelete p FileNotFoundError) (emit (Attempting p) (delete_spec h p k st)))"
proof -
  have first: "delete_key h p st = Some (delete_spec h p k st)"
    using assms(2-5) unfolding delete_key_def by (rule delete_run_DelKey_spec)
  have "lookup_key (reg (delete_spec h p k st) h) (segments p) = None"
    using lookup_remove_at_self [OF wf_store_key [OF assms(1)] segments_not_Nil [OF assms(2)]] by (simp add: delete_spec_def)
  then have "delete_key h p (delete_spec h p k st) =
               Some (emit (FailedDelete p FileNotFoundError) (emit (Attempting p) (delete_spec h p k st)))"
    by (simp add: delete_key_def delete_run_DelKey OpenKey_def)
  with first show ?thesis by simp
qed

theorem delete_key_twice_witness:
  "map_option out (delete_matches [(HKEY_CURRENT_USER, join_path shell_path ''AntigravityShell'', KEY_NAME_MATCH),
       (HKEY_CURRENT_USER, join_path shell_path ''AntigravityShell'', VALUE_MATCH)] (demo_state demo_shell)) =
     Some [Attempting (join_path shell_path ''AntigravityShell''), Attempting (join_path (join_path shell_path ''AntigravityShell'') ''command''), Deleted (join_path (join_path shell_path ''AntigravityShell'') ''command''), Deleted (join_path shell_path ''AntigravityShell''),
           Attempting (join_path shell_path ''AntigravityShell''), FailedDelete (join_path shell_path ''AntigravityShell'') FileNotFoundError]"
proof -
  have "join_path shell_path ''AntigravityShell'' \<noteq> []" by simp
  from delete_key_twice [OF demo_wf_store this demo_antigravity(2,1,3)] show ?thesis
    by (simp add: delete_spec_def demo_state_def)
qed

text \<open>
  C5. After a successful \<open>delete_key\<close> the key cannot be opened any more
  (\<open>FileNotFoundError\<close>), and the last printed line is its \<open>SUCCESS\<close> line.
\<close>

theorem delete_key_removes_key:
  assumes "wf_store (reg st)" "p \<noteq> []" "lookup_key (reg st h) (segments p) = Some k" "all_full k"
  shows "\<exists>r. delete_key h p st = Some r \<and> OpenKey (reg r) h p acc = Inl FileNotFoundError
              \<and> last (out r) = Deleted p"
proof -
  have wf: "wf_key k" using wf_lookup_key [OF wf_store_key [OF assms(1)] assms(3)] .
  have d: "delete_key h p st = Some (delete_spec h p k st)"
    unfolding delete_key_def using assms(2) wf assms(3,4) by (rule delete_run_DelKey_spec)
  have "lookup_key (remove_at (segments p) (reg st h)) (segments p) = None"
    using lookup_remove_at_self [OF wf_store_key [OF assms(1)] segments_not_Nil [OF assms(2)]] .
  moreover have "delete_log p k \<noteq> [] \<and> last (delete_log p k) = Deleted p" by (cases k) simp
  ultimately show ?thesis using d by (simp add: delete_spec_def OpenKey_def)
qed

theorem delete_key_removes_key_witness:
  "\<exists>r. delete_key HKEY_CURRENT_USER (join_path shell_path ''AntigravityShell'') (demo_state demo_shell) = Some r \<and>
     OpenKey (reg r) HKEY_CURRENT_USER (join_path shell_path ''AntigravityShell'') KEY_READ = Inl FileNotFoundError \<and>
     last (out r) = Deleted (join_path shell_path ''AntigravityShell'')"
proof -
  have "join_path shell_path ''AntigravityShell'' \<noteq> []" by simp
  from delete_key_removes_key [OF demo_wf_store this demo_antigravity(1,3)] show ?thesis .
qed

text \<open>
  C6. Deleting a key that does not exist is not fatal: \<open>delete_key\<close> returns with the
  store unchanged, after printing the attempt and a \<open>FileNotFoundError\<close> failure.
\<close>

theorem delete_key_missing:
  assumes "lookup_key (reg st h) (segments p) = None"
  shows "delete_key h p st = Some (emit (FailedDelete p FileNotFoundError) (emit (Attempting p) st))"
  using assms by (simp add: delete_key_def delete_run_DelKey OpenKey_def)

theorem delete_key_missing_witness:
  "delete_key HKEY_CURRENT_USER (join_path shell_path ''Nope'') (demo_state demo_shell) =
     Some (emit (FailedDelete (join_path shell_path ''Nope'') FileNotFoundError)
       (emit (Attempting (join_path shell_path ''Nope'')) (demo_state demo_shell)))"
proof -
  have "lookup_key (reg (demo_state demo_shell) HKEY_CURRENT_USER)
          (segments (join_path shell_path ''Nope'')) = None"
    by (simp add: demo_simps demo_shell_def)
  from delete_key_missing [OF this] show ?thesis .
qed


end
