(* ===== verification/Scan_Records.thy ===== *)
theory Scan_Records
  imports Clean_Reg
begin

text \<open>
  What \<open>search_keys\<close> of \<open>src/scripts/clean_reg.py\<close> reports, on any store (no
  well-formedness assumed): every record is a \<open>MatchRecord\<close> of the scanned hive for an
  immediate subkey of the scanned key, printed with the line of its reason
  (\<open>record_ok\<close>), and the scan reports at most two records per subkey. It also holds
  the scan on a console that may refuse a line (\<open>search_keys_io\<close>).
\<close>

section \<open>Definitions\<close>

text \<open>A record for the subkey path \<open>full\<close> of hive \<open>h\<close>: a \<open>KEY_NAME_MATCH\<close> printed as a
  \<open>FOUND KEY NAME\<close> line, or a \<open>VALUE_MATCH\<close> printed as a \<open>FOUND VALUE\<close> line, both
  naming that path.\<close>

fun record_ok :: "hive \<Rightarrow> string \<Rightarrow> match \<times> log_line \<Rightarrow> bool" where
  "record_ok h full ((h', p, KEY_NAME_MATCH), FoundKeyName q) = (h' = h \<and> p = full \<and> q = full)"
| "record_ok h full ((h', p, VALUE_MATCH), FoundValue q v) = (h' = h \<and> p = full \<and> q = full)"
| "record_ok h full x = False"

text \<open>
  The scan on a console \<open>pr\<close> that may refuse a line. Each \<open>FOUND\<close> line is printed
  right after its record is appended (lines 14--16 and 23--25); a refused print raises
  \<open>UnicodeEncodeError\<close>, which neither \<open>except OSError\<close> of the loop catches, so the
  outer \<open>except Exception\<close> (lines 32--34) returns the records found so far, the last
  one included. \<open>emit_records\<close> appends and prints the records of one test and says
  whether every print succeeded; the result of the scan is the records and the printed
  lines.
\<close>

fun emit_records :: "(log_line \<Rightarrow> bool) \<Rightarrow> (match \<times> log_line) list \<Rightarrow> match list \<times> log_line list \<Rightarrow>
                      (match list \<times> log_line list) \<times> bool" where
  "emit_records pr [] acc = (acc, True)"
| "emit_records pr ((m, l) # rs) (found, printed) =
     (if pr l then emit_records pr rs (found @ [m], printed @ [l]) else ((found @ [m], printed), False))"

function search_loop_io ::
  "(log_line \<Rightarrow> bool) \<Rightarrow> store \<Rightarrow> hive \<Rightarrow> string \<Rightarrow> string \<Rightarrow> handle \<Rightarrow> nat \<Rightarrow>
   match list \<times> log_line list \<Rightarrow> match list \<times> log_line list" where
  "search_loop_io pr s h key_path term kh i acc =
     (case EnumKey s kh i of
        Inl e \<Rightarrow> acc
      | Inr sub_key_name \<Rightarrow>
          (let full_path = join_path key_path sub_key_name
           in case emit_records pr (check_name h term sub_key_name full_path) acc of
                (acc1, False) \<Rightarrow> acc1
              | (acc1, True) \<Rightarrow>
                  (case emit_records pr (check_value s h term full_path) acc1 of
                     (acc2, False) \<Rightarrow> acc2
                   | (acc2, True) \<Rightarrow> search_loop_io pr s h key_path term kh (Suc i) acc2)))"
  by pat_completeness auto

termination
  by (relation "measure (\<lambda>(pr, s, h, kp, t, kh, i, acc). subkey_count s kh - i)")
    (auto simp: EnumKey_def subkey_count_def split: option.splits if_splits)

declare search_loop_io.simps [simp del]

definition search_keys_io :: "(log_line \<Rightarrow> bool) \<Rightarrow> store \<Rightarrow> hive \<Rightarrow> string \<Rightarrow> string \<Rightarrow>
                              match list \<times> log_line list" where
  "search_keys_io pr s h key_path term =
     (case OpenKey s h key_path KEY_READ of
        Inl e \<Rightarrow> ([], [])
      | Inr kh \<Rightarrow> search_loop_io pr s h key_path term kh 0 ([], []))"

text \<open>What a scan that stops at the first refused line returns and prints: the records up
  to and including that one, and the lines before it.\<close>

definition print_prefix :: "(log_line \<Rightarrow> bool) \<Rightarrow> (match \<times> log_line) list \<Rightarrow> match list \<times> log_line list" where
  "print_prefix pr rs =
     (let k = length (takeWhile (pr \<circ> snd) rs) in (map fst (take (Suc k) rs), map snd (take k rs)))"

section \<open>Lemmas\<close>

lemma print_prefix_append:
  "print_prefix pr (xs @ ys) =
     (if list_all (pr \<circ> snd) xs
      then (map fst xs @ fst (print_prefix pr ys), map snd xs @ snd (print_prefix pr ys))
      else print_prefix pr xs)"
proof (cases "list_all (pr \<circ> snd) xs")
  case True
  then have "takeWhile (pr \<circ> snd) (xs @ ys) = xs @ takeWhile (pr \<circ> snd) ys"
    by (simp add: list_all_iff takeWhile_append2)
  with True show ?thesis by (simp add: print_prefix_def Let_def)
next
  case False
  then have tw: "takeWhile (pr \<circ> snd) (xs @ ys) = takeWhile (pr \<circ> snd) xs"
    by (auto simp: list_all_iff takeWhile_append1)
  from False have "length (takeWhile (pr \<circ> snd) xs) < length xs"
    by (induction xs) auto
  with False tw show ?thesis by (simp add: print_prefix_def Let_def)
qed

lemma emit_records_prefix:
  "emit_records pr rs (f, p) =
     ((f @ fst (print_prefix pr rs), p @ snd (print_prefix pr rs)), list_all (pr \<circ> snd) rs)"
  by (induction rs arbitrary: f p) (auto simp: print_prefix_def Let_def)

lemma print_prefix_Nil [simp]: "print_prefix pr [] = ([], [])"
  by (simp add: print_prefix_def)

lemma print_prefix_all: "list_all (pr \<circ> snd) rs \<Longrightarrow> print_prefix pr rs = (map fst rs, map snd rs)"
proof -
  assume "list_all (pr \<circ> snd) rs"
  then have "takeWhile (pr \<circ> snd) rs = rs" by (simp add: list_all_iff takeWhile_eq_all_conv)
  then show ?thesis by (simp add: print_prefix_def Let_def del: takeWhile_eq_all_conv)
qed


lemma search_keys_unfold:
  "search_keys s h kp t =
     (case lookup_key (s h) (segments kp) of
        None \<Rightarrow> []
      | Some K \<Rightarrow> if key_acl K = NoAccess then []
                  else concat (map (\<lambda>(n, c). subkey_records s h kp t n) (subkeys K)))"
  by (auto simp: search_keys_def OpenKey_def search_loop_unfold split: option.split)

lemma subkey_records_ok: "x \<in> set (subkey_records s h kp t n) \<Longrightarrow> record_ok h (join_path kp n) x"
  by (auto simp: subkey_records_def Let_def check_name_def check_value_def split: sum.splits option.splits if_splits)

lemma length_subkey_records: "length (subkey_records s h kp t n) \<le> 2"
  by (simp add: subkey_records_def Let_def check_name_def check_value_def split: sum.split option.split)

lemma length_concat_records:
  "length (concat (map (\<lambda>(n, c). subkey_records s h kp t n) cs)) \<le> 2 * length cs"
proof (induction cs)
  case (Cons nc cs)
  then show ?case using length_subkey_records [of s h kp t "fst nc"] by (simp add: case_prod_beta)
qed simp

lemma search_loop_io_unfold:
  assumes "lookup_key (s (fst kh)) (snd kh) = Some K"
  shows "search_loop_io pr s h kp t kh i (f, p) =
           (f @ fst (print_prefix pr (concat (map (\<lambda>(n, c). subkey_records s h kp t n) (drop i (subkeys K))))),
            p @ snd (print_prefix pr (concat (map (\<lambda>(n, c). subkey_records s h kp t n) (drop i (subkeys K))))))"
proof (induction "length (subkeys K) - i" arbitrary: i f p)
  case 0
  then have "EnumKey s kh i = Inl NoMoreItems"
    using assms by (simp add: EnumKey_def)
  with "0" show ?case by (subst search_loop_io.simps) simp
next
  case (Suc m)
  let ?cs = "subkeys K"
  from Suc.hyps have i: "i < length ?cs" by simp
  obtain n c where nc: "?cs ! i = (n, c)" by (cases "?cs ! i")
  have enum: "EnumKey s kh i = Inr n"
    using assms i nc by (simp add: EnumKey_def)
  have drop: "drop i ?cs = (n, c) # drop (Suc i) ?cs"
    using Cons_nth_drop_Suc [OF i] nc by simp
  from Suc.hyps have "m = length ?cs - Suc i" by simp
  note IH = Suc.hyps(1) [OF this]
  let ?N = "check_name h t n (join_path kp n)" and ?V = "check_value s h t (join_path kp n)"
  note defs = enum drop subkey_records_def Let_def emit_records_prefix print_prefix_append print_prefix_all
  show ?case
  proof (cases "list_all (pr \<circ> snd) ?N")
    case False
    then show ?thesis by (subst search_loop_io.simps) (simp add: defs)
  next
    case True
    then show ?thesis
      by (cases "list_all (pr \<circ> snd) ?V"; subst search_loop_io.simps) (simp_all add: defs IH)
  qed
qed

section \<open>Properties\<close>

text \<open>
  C18. Every record the scan returns is well-formed: the key it scanned exists, and the
  record names its hive and the path of one of its immediate subkeys, with the printed
  line matching the reason (\<open>FOUND KEY NAME\<close> for \<open>KEY_NAME_MATCH\<close>, \<open>FOUND VALUE\<close> for
  \<open>VALUE_MATCH\<close>). The scan never reports a grandchild, another hive or a mislabelled line.
\<close>

theorem search_keys_records_ok:
  assumes "x \<in> set (search_keys s h kp t)"
  shows "\<exists>K. lookup_key (s h) (segments kp) = Some K \<and>
           (\<exists>n \<in> fst ` set (subkeys K). record_ok h (join_path kp n) x)"
proof -
  from assms obtain K n c where look: "lookup_key (s h) (segments kp) = Some K"
    and "(n, c) \<in> set (subkeys K)" and "x \<in> set (subkey_records s h kp t n)"
    by (cases "lookup_key (s h) (segments kp)") (auto simp: search_keys_unfold split: if_splits)
  with look show ?thesis by (force dest: subkey_records_ok)
qed

theorem search_keys_records_ok_witness:
  "\<exists>K. lookup_key (reg (demo_state demo_shell) HKEY_CURRENT_USER) (segments shell_path) = Some K \<and>
     (\<exists>n \<in> fst ` set (subkeys K). record_ok HKEY_CURRENT_USER (join_path shell_path n)
        ((HKEY_CURRENT_USER, join_path shell_path ''Foo'', VALUE_MATCH),
         FoundValue (join_path shell_path ''Foo'') ''Launch Antigravity Here''))"
proof -
  have "((HKEY_CURRENT_USER, join_path shell_path ''Foo'', VALUE_MATCH),
         FoundValue (join_path shell_path ''Foo'') ''Launch Antigravity Here'')
        \<in> set (search_keys (reg (demo_state demo_shell)) HKEY_CURRENT_USER shell_path ''Antigravity'')"
    by (simp add: search_keys_unfold demo_simps demo_shell_def subkey_records_def Let_def check_name_def
                  check_value_def OpenKey_def QueryDefaultValue_def)
  then show ?thesis by (rule search_keys_records_ok)
qed

text \<open>
  C19. The scan of a key reports at most two records per immediate subkey of the key,
  one per match reason: a subkey is never reported twice for the same reason.
\<close>

theorem search_keys_length:
  assumes "lookup_key (s h) (segments kp) = Some K"
  shows "length (search_keys s h kp t) \<le> 2 * length (subkeys K)"
  using assms length_concat_records [of s h kp t "subkeys K"] by (simp add: search_keys_unfold)

theorem search_keys_length_witness:
  "length (search_keys (reg (demo_state demo_shell)) HKEY_CURRENT_USER shell_path ''Antigravity'') \<le> 6"
proof -
  have "lookup_key (reg (demo_state demo_shell) HKEY_CURRENT_USER) (segments shell_path) = Some demo_shell"
    by (simp add: demo_simps demo_shell_def)
  from search_keys_length [where s = "reg (demo_state demo_shell)" and h = HKEY_CURRENT_USER, OF this]
  show ?thesis by (simp add: demo_shell_def)
qed

text \<open>
  C26. On a console that may refuse a line, the scan returns exactly the records of
  \<open>search_keys\<close> up to and including the first one whose \<open>FOUND\<close> line the console
  refuses, and prints the lines before it: that match is returned (and so deleted by the
  module body) without being reported, and the later subkeys of the target are never
  scanned. On a console that accepts every line it is \<open>search_keys\<close> itself.
\<close>

theorem search_keys_io_prefix: "search_keys_io pr s h kp t = print_prefix pr (search_keys s h kp t)"
  by (auto simp: search_keys_io_def search_keys_def OpenKey_def search_loop_unfold search_loop_io_unfold
           split: option.split)

end
