(* ===== verification/Purge_Run.thy ===== *)
theory Purge_Run
  imports Scan_Records
begin

text \<open>
  Whole runs of the module body of \<open>src/scripts/clean_reg.py\<close>. The specification
  \<open>purge_run\<close> says what a run does to the store: target after target, the key is
  replaced by \<open>purge_key\<close>, which drops exactly the reported subkeys (\<open>hit\<close>) that grant
  full access (\<open>removed\<close>); a reported subkey that the scan can open for deletion but
  whose subtree holds a protected key (\<open>blocked\<close>) makes the run never return
  (\<open>purge_ok\<close> fails). Reported subkeys without full access stay, their deletion being
  refused. \<open>targets_apart\<close> says that targets in the same hive diverge, so that the
  purge of one target does not touch another. \<open>deletable\<close> is the stronger condition
  that every reported subkey can be deleted.
\<close>

section \<open>Definitions\<close>

definition hit :: "hive \<Rightarrow> string \<Rightarrow> string \<Rightarrow> string \<times> rkey \<Rightarrow> bool" where
  "hit h t p e = (scan_spec h t p [e] \<noteq> [])"

definition removed :: "hive \<Rightarrow> string \<Rightarrow> string \<Rightarrow> string \<times> rkey \<Rightarrow> bool" where
  "removed h t p e = (hit h t p e \<and> key_acl (snd e) = FullAccess)"

definition blocked :: "hive \<Rightarrow> string \<Rightarrow> string \<Rightarrow> string \<times> rkey \<Rightarrow> bool" where
  "blocked h t p e = (removed h t p e \<and> \<not> all_full (snd e))"

definition purge_ok :: "store \<Rightarrow> hive \<Rightarrow> string \<Rightarrow> string \<Rightarrow> bool" where
  "purge_ok s h p t =
     (case lookup_key (s h) (segments p) of
        None \<Rightarrow> True
      | Some K \<Rightarrow> key_acl K = NoAccess \<or> (\<forall>e \<in> set (subkeys K). \<not> blocked h t p e))"

definition purge_key :: "hive \<Rightarrow> string \<Rightarrow> string \<Rightarrow> rkey \<Rightarrow> rkey" where
  "purge_key h t p K =
     (if key_acl K = NoAccess then K else with_subkeys (filter (\<lambda>e. \<not> removed h t p e)) K)"

definition purge_at :: "hive \<Rightarrow> string \<Rightarrow> string \<Rightarrow> store \<Rightarrow> store" where
  "purge_at h t p s = s(h := update_at (segments p) (purge_key h t p) (s h))"

fun purge_run :: "string \<Rightarrow> (hive \<times> string) list \<Rightarrow> store \<Rightarrow> store option" where
  "purge_run t [] s = Some s"
| "purge_run t ((h, p) # ts) s = (if purge_ok s h p t then purge_run t ts (purge_at h t p s) else None)"

text \<open>The printed log of a run. A reported subkey that grants full access is deleted by
  its first match (the log of \<open>delete_key\<close>, \<open>delete_log\<close>) and every further match of it
  fails with \<open>FileNotFoundError\<close>; a reported subkey without full access fails every match
  with \<open>PermissionError\<close>. A target logs its matches, then the deletions subkey by subkey.\<close>

definition fail_log :: "string \<Rightarrow> win_error \<Rightarrow> nat \<Rightarrow> log_line list" where
  "fail_log q err k = concat (replicate k [Attempting q, FailedDelete q err])"

definition child_log :: "hive \<Rightarrow> string \<Rightarrow> string \<Rightarrow> string \<times> rkey \<Rightarrow> log_line list" where
  "child_log h t p e =
     (let q = join_path p (fst e); k = length (scan_spec h t p [e]) in
      if key_acl (snd e) = FullAccess
      then (if k = 0 then [] else delete_log q (snd e) @ fail_log q FileNotFoundError (k - 1))
      else fail_log q PermissionError k)"

definition target_log :: "store \<Rightarrow> hive \<Rightarrow> string \<Rightarrow> string \<Rightarrow> log_line list" where
  "target_log s h p t =
     (case lookup_key (s h) (segments p) of
        None \<Rightarrow> []
      | Some K \<Rightarrow> if key_acl K = NoAccess then []
                  else map snd (scan_spec h t p (subkeys K)) @ concat (map (child_log h t p) (subkeys K)))"

fun purge_trace :: "string \<Rightarrow> (hive \<times> string) list \<Rightarrow> store \<Rightarrow> (store \<times> log_line list) option" where
  "purge_trace t [] s = Some (s, [])"
| "purge_trace t ((h, p) # ts) s =
     (if purge_ok s h p t
      then map_option (\<lambda>(s', l). (s', target_log s h p t @ l)) (purge_trace t ts (purge_at h t p s))
      else None)"

definition deletable :: "store \<Rightarrow> hive \<Rightarrow> string \<Rightarrow> string \<Rightarrow> bool" where
  "deletable s h p t =
     (case lookup_key (s h) (segments p) of
        None \<Rightarrow> True
      | Some K \<Rightarrow> (\<forall>e \<in> set (subkeys K). hit h t p e \<longrightarrow> all_full (snd e)))"

fun targets_apart :: "(hive \<times> string) list \<Rightarrow> bool" where
  "targets_apart [] = True"
| "targets_apart ((h, p) # ts) =
     ((\<forall>(h', q) \<in> set ts. h' = h \<longrightarrow> diverge (segments p) (segments q)) \<and> targets_apart ts)"

text \<open>An example store whose matched entry is read-only: the purge refuses it on every
  run.\<close>

definition readonly_shell :: rkey where
  "readonly_shell = Key FullAccess None
     [(''AntigravityShell'', Key ReadOnly (Some (RegSz ''Open with Antigravity'')) []),
      (''Bar'', Key FullAccess (Some (RegSz ''Open PowerShell'')) [])]"

section \<open>One target\<close>

lemma scan_spec_Cons: "scan_spec h t p (e # es) = scan_spec h t p [e] @ scan_spec h t p es"
  by (simp add: scan_spec_def)

lemma scan_spec_Nil_iff: "scan_spec h t p es = [] \<longleftrightarrow> (\<forall>e \<in> set es. \<not> hit h t p e)"
proof (induction es)
  case Nil
  then show ?case by (simp add: scan_spec_def)
next
  case (Cons e es)
  then show ?case by (subst scan_spec_Cons) (simp add: hit_def)
qed

lemma scan_spec_single_paths:
  "m \<in> set (map fst (scan_spec h t p [(n, c)])) \<Longrightarrow> fst m = h \<and> fst (snd m) = join_path p n"
  by (auto simp: scan_spec_def check_name_def value_hits_def split: if_splits option.splits)

lemma delete_matches_append:
  "delete_matches (xs @ ys) st = delete_matches xs st \<bind> delete_matches ys"
  by (induction xs st rule: delete_matches.induct) (auto split: Option.bind_splits)

lemma delete_matches_refused:
  "\<forall>m \<in> set ms. fst m = h \<and> fst (snd m) = q \<Longrightarrow> OpenKey (reg st) h q KEY_ALL_ACCESS = Inl err \<Longrightarrow>
   \<exists>st'. delete_matches ms st = Some st' \<and> reg st' = reg st \<and> out st' = out st @ fail_log q err (length ms)"
proof (induction ms arbitrary: st)
  case Nil
  then show ?case by (simp add: fail_log_def)
next
  case (Cons m ms)
  obtain h' q' r where m: "m = (h', q', r)" by (cases m)
  with Cons.prems have hq: "h' = h" "q' = q" by simp_all
  let ?st' = "emit (FailedDelete q err) (emit (Attempting q) st)"
  have d: "delete_key h q st = Some ?st'"
    using Cons.prems(2) by (simp add: delete_key_def delete_run_DelKey)
  from Cons.IH [of ?st'] Cons.prems obtain st'' where
    "delete_matches ms ?st' = Some st''" "reg st'' = reg st"
    "out st'' = out st @ [Attempting q, FailedDelete q err] @ fail_log q err (length ms)"
    by (auto simp: emit_def)
  with d m hq show ?case by (simp add: fail_log_def)
qed

lemma lookup_child:
  assumes p: "p \<noteq> []" and wf: "wf_key (Key a v cur)" and mem: "(n, c) \<in> set cur"
    and st: "reg st h = update_at (segments p) (\<lambda>_. Key a v cur) S"
    and S: "lookup_key S (segments p) \<noteq> None"
  shows "segments (join_path p n) = segments p @ [n]"
    and "lookup_key (reg st h) (segments (join_path p n)) = Some c"
proof -
  have dist: "distinct (map (lower \<circ> fst) cur)" using wf by simp
  from wf mem have bs: "backslash \<notin> set n" by auto
  show seg: "segments (join_path p n) = segments p @ [n]" using p bs by (simp add: segments_join_path)
  show "lookup_key (reg st h) (segments (join_path p n)) = Some c"
    using S by (auto simp: st seg lookup_key_append lookup_update_at find_child_member [OF dist mem])
qed

lemma delete_key_blocked:
  assumes "q \<noteq> []" "wf_key c" "lookup_key (reg st h) (segments q) = Some c"
    and "key_acl c = FullAccess" "\<not> all_full c"
  shows "delete_key h q st = None"
proof (rule ccontr)
  assume "delete_key h q st \<noteq> None"
  then obtain r where "delete_run h (DelKey q) st = Some r" by (auto simp: delete_key_def)
  then have "delete_post h (DelKey q) st r" by (rule delete_run_post)
  with assms show False by (simp add: delete_post_def)
qed

lemma delete_matches_child:
  assumes p: "p \<noteq> []" and wf: "wf_key (Key a v cur)" and mem: "(n, c) \<in> set cur" and full: "all_full c"
    and st: "reg st h = update_at (segments p) (\<lambda>_. Key a v cur) S"
    and S: "lookup_key S (segments p) \<noteq> None"
    and ms: "\<forall>m \<in> set ms. fst m = h \<and> fst (snd m) = join_path p n" and ne: "ms \<noteq> []"
  shows "\<exists>st'. delete_matches ms st = Some st' \<and>
           reg st' = (reg st)(h := update_at (segments p) (\<lambda>_. Key a v (remove_first n cur)) S) \<and>
           out st' = out st @ delete_log (join_path p n) c @
                       fail_log (join_path p n) FileNotFoundError (length ms - 1)"
proof -
  obtain r ms' where ms_eq: "ms = (h, join_path p n, r) # ms'"
    using ms ne by (cases ms) auto
  let ?q = "join_path p n"
  have dist: "distinct (map (lower \<circ> fst) cur)" using wf by simp
  from wf mem have wfc: "wf_key c" by auto
  note seg = lookup_child(1) [OF p wf mem st S] and look = lookup_child(2) [OF p wf mem st S]
  have q: "?q \<noteq> []" by (simp add: join_path_not_Nil)
  have d: "delete_key h ?q st = Some (delete_spec h ?q c st)"
    unfolding delete_key_def by (rule delete_run_DelKey_spec [OF q wfc look full])
  let ?st1 = "delete_spec h ?q c st"
  have eq: "with_subkeys (remove_first n) \<circ> (\<lambda>_. Key a v cur) = (\<lambda>_. Key a v (remove_first n cur))"
    by (simp add: fun_eq_iff)
  have reg1: "reg ?st1 = (reg st)(h := update_at (segments p) (\<lambda>_. Key a v (remove_first n cur)) S)"
    by (simp add: delete_spec_def seg st remove_at_snoc update_at_comp eq)
  have "find_child n (remove_first n cur) = None" using dist by (rule find_child_remove_first)
  then have "OpenKey (reg ?st1) h ?q KEY_ALL_ACCESS = Inl FileNotFoundError"
    by (simp add: OpenKey_def reg1 seg lookup_key_append lookup_update_at split: option.split)
  moreover have "\<forall>m \<in> set ms'. fst m = h \<and> fst (snd m) = ?q" using ms ms_eq by simp
  ultimately obtain st' where "delete_matches ms' ?st1 = Some st'" "reg st' = reg ?st1"
    "out st' = out ?st1 @ fail_log ?q FileNotFoundError (length ms')"
    using delete_matches_refused by blast
  with d reg1 show ?thesis by (simp add: ms_eq delete_spec_def)
qed

lemma delete_matches_children:
  assumes p: "p \<noteq> []" and S: "lookup_key S (segments p) \<noteq> None"
  shows "set rest \<subseteq> set cur \<Longrightarrow> distinct rest \<Longrightarrow> wf_key (Key a v cur) \<Longrightarrow>
    reg st h = update_at (segments p) (\<lambda>_. Key a v cur) S \<Longrightarrow>
    (if \<exists>e \<in> set rest. blocked h t p e
     then delete_matches (map fst (scan_spec h t p rest)) st = None
     else \<exists>st'. delete_matches (map fst (scan_spec h t p rest)) st = Some st' \<and>
       reg st' = (reg st)(h := update_at (segments p)
                   (\<lambda>_. Key a v (filter (\<lambda>e. \<not> (e \<in> set rest \<and> removed h t p e)) cur)) S) \<and>
       out st' = out st @ concat (map (child_log h t p) rest))"
proof (induction rest arbitrary: cur st)
  case Nil
  then have "(reg st)(h := update_at (segments p) (\<lambda>_. Key a v cur) S) = reg st" by auto
  then show ?case by (simp add: scan_spec_def)
next
  case (Cons e rest)
  obtain n c where e: "e = (n, c)" by (cases e)
  let ?ms = "map fst (scan_spec h t p [(n, c)])"
  let ?q = "join_path p n"
  have split: "map fst (scan_spec h t p (e # rest)) = ?ms @ map fst (scan_spec h t p rest)"
    by (subst scan_spec_Cons) (simp add: e)
  have paths: "\<forall>m \<in> set ?ms. fst m = h \<and> fst (snd m) = ?q"
    using scan_spec_single_paths by blast
  have mem: "(n, c) \<in> set cur" using Cons.prems(1) e by simp
  have wfc: "wf_key c" using Cons.prems(3) mem by auto
  note look = lookup_child(2) [OF p Cons.prems(3) mem Cons.prems(4) S]
  have rest_sub: "set rest \<subseteq> set cur" "distinct rest" "e \<notin> set rest" using Cons.prems(1,2) by auto
  show ?case
  proof (cases "blocked h t p e")
    case True
    then have hit: "hit h t p e" and full: "key_acl c = FullAccess" and nf: "\<not> all_full c"
      using e by (auto simp: blocked_def removed_def)
    then obtain r ms' where ms_eq: "?ms = (h, ?q, r) # ms'"
      using paths e by (cases ?ms) (auto simp: hit_def)
    have "delete_key h ?q st = None"
      by (rule delete_key_blocked [OF join_path_not_Nil wfc look full nf])
    then have "delete_matches (map fst (scan_spec h t p (e # rest))) st = None"
      by (simp add: split ms_eq)
    with True show ?thesis by auto
  next
    case False
    have step: "\<exists>cur1 st1. delete_matches ?ms st = Some st1 \<and>
        reg st1 = (reg st)(h := update_at (segments p) (\<lambda>_. Key a v cur1) S) \<and>
        set rest \<subseteq> set cur1 \<and> wf_key (Key a v cur1) \<and>
        filter (\<lambda>x. \<not> (x \<in> set (e # rest) \<and> removed h t p x)) cur =
        filter (\<lambda>x. \<not> (x \<in> set rest \<and> removed h t p x)) cur1 \<and>
        out st1 = out st @ child_log h t p e"
    proof (cases "removed h t p e")
      case True
      with False e have full: "all_full c" and hit: "hit h t p e"
        by (auto simp: blocked_def removed_def)
      have ne: "?ms \<noteq> []" using hit e by (simp add: hit_def)
      have dist: "distinct (map (lower \<circ> fst) cur)" using Cons.prems(3) by simp
      obtain st1 where "delete_matches ?ms st = Some st1"
        and "reg st1 = (reg st)(h := update_at (segments p) (\<lambda>_. Key a v (remove_first n cur)) S)"
        and o1: "out st1 = out st @ delete_log ?q c @ fail_log ?q FileNotFoundError (length ?ms - 1)"
        using delete_matches_child [OF p Cons.prems(3) mem full Cons.prems(4) S paths ne] by blast
      moreover have "out st1 = out st @ child_log h t p e"
        using o1 True ne e by (simp add: child_log_def removed_def Let_def)
      moreover have cur': "remove_first n cur = filter (\<lambda>x. x \<noteq> (n, c)) cur"
        by (rule remove_first_filter [OF dist mem])
      moreover have "set rest \<subseteq> set (remove_first n cur)" using rest_sub e by (auto simp: cur')
      moreover have "wf_key (Key a v (remove_first n cur))"
        using wf_remove_first [OF Cons.prems(3), of n] by simp
      moreover have "filter (\<lambda>x. \<not> (x \<in> set (e # rest) \<and> removed h t p x)) cur =
          filter (\<lambda>x. \<not> (x \<in> set rest \<and> removed h t p x)) (remove_first n cur)"
        using True e by (auto simp: cur' filter_filter intro: filter_cong)
      ultimately show ?thesis by blast
    next
      case notrem: False
      have "\<exists>st1. delete_matches ?ms st = Some st1 \<and> reg st1 = reg st \<and> out st1 = out st @ child_log h t p e"
      proof (cases "hit h t p e")
        case True
        with notrem e have acl: "key_acl c \<noteq> FullAccess" by (simp add: removed_def)
        then have "OpenKey (reg st) h ?q KEY_ALL_ACCESS = Inl PermissionError"
          using look by (simp add: OpenKey_def)
        with paths have "\<exists>st1. delete_matches ?ms st = Some st1 \<and> reg st1 = reg st \<and>
                           out st1 = out st @ fail_log ?q PermissionError (length ?ms)"
          by (rule delete_matches_refused)
        with acl e show ?thesis by (simp add: child_log_def Let_def)
      next
        case False
        then show ?thesis using e by (simp add: hit_def child_log_def Let_def fail_log_def)
      qed
      then obtain st1 where "delete_matches ?ms st = Some st1" "reg st1 = reg st"
        "out st1 = out st @ child_log h t p e" by blast
      moreover have "reg st = (reg st)(h := update_at (segments p) (\<lambda>_. Key a v cur) S)"
        using Cons.prems(4) by (simp add: fun_upd_idem)
      moreover have "filter (\<lambda>x. \<not> (x \<in> set (e # rest) \<and> removed h t p x)) cur =
          filter (\<lambda>x. \<not> (x \<in> set rest \<and> removed h t p x)) cur"
        using notrem by (auto intro: filter_cong)
      ultimately show ?thesis using rest_sub Cons.prems(3) by metis
    qed
    then obtain cur1 st1 where d1: "delete_matches ?ms st = Some st1"
      and r1: "reg st1 = (reg st)(h := update_at (segments p) (\<lambda>_. Key a v cur1) S)"
      and sub1: "set rest \<subseteq> set cur1" and wf1: "wf_key (Key a v cur1)"
      and filt: "filter (\<lambda>x. \<not> (x \<in> set (e # rest) \<and> removed h t p x)) cur =
                 filter (\<lambda>x. \<not> (x \<in> set rest \<and> removed h t p x)) cur1"
      and o1: "out st1 = out st @ child_log h t p e"
      by blast
    have h1: "reg st1 h = update_at (segments p) (\<lambda>_. Key a v cur1) S" by (simp add: r1)
    note IH = Cons.IH [OF sub1 rest_sub(2) wf1 h1]
    have nb: "(\<exists>x \<in> set (e # rest). blocked h t p x) = (\<exists>x \<in> set rest. blocked h t p x)"
      using False by auto
    show ?thesis
    proof (cases "\<exists>x \<in> set rest. blocked h t p x")
      case True
      with IH d1 nb show ?thesis by (simp add: split delete_matches_append)
    next
      case nob: False
      with IH obtain st' where d2: "delete_matches (map fst (scan_spec h t p rest)) st1 = Some st'"
        and r2: "reg st' = (reg st1)(h := update_at (segments p)
                   (\<lambda>_. Key a v (filter (\<lambda>x. \<not> (x \<in> set rest \<and> removed h t p x)) cur1)) S)"
        and o2: "out st' = out st1 @ concat (map (child_log h t p) rest)"
        by auto
      from d1 d2 have "delete_matches (map fst (scan_spec h t p (e # rest))) st = Some st'"
        by (simp add: split delete_matches_append)
      moreover from r1 r2 have "reg st' = (reg st)(h := update_at (segments p)
                   (\<lambda>_. Key a v (filter (\<lambda>x. \<not> (x \<in> set rest \<and> removed h t p x)) cur1)) S)"
        by simp
      ultimately show ?thesis using nob nb o1 o2 unfolding filt by auto
    qed
  qed
qed

lemma search_keys_lookup:
  assumes "wf_store s" "p \<noteq> []"
  shows "search_keys s h p t =
           (case lookup_key (s h) (segments p) of
              None \<Rightarrow> []
            | Some K \<Rightarrow> if key_acl K = NoAccess then [] else scan_spec h t p (subkeys K))"
proof (cases "lookup_key (s h) (segments p)")
  case None
  then show ?thesis by (simp add: search_keys_def OpenKey_def)
next
  case (Some K)
  have "wf_key K" using wf_lookup_key [OF wf_store_key [OF assms(1)] Some] .
  with Some assms(2) show ?thesis by (simp add: search_keys_def OpenKey_def search_loop_spec)
qed

lemma delete_target_run:
  fixes h :: hive and t :: string
  assumes wf: "wf_store (reg st)" and p: "p \<noteq> []"
  defines "keys \<equiv> search_keys (reg st) h p t"
  shows "if purge_ok (reg st) h p t
         then \<exists>st2. delete_matches (map fst keys) (st\<lparr>out := out st @ map snd keys\<rparr>) = Some st2 \<and>
                   reg st2 = purge_at h t p (reg st) \<and> out st2 = out st @ target_log (reg st) h p t
         else delete_matches (map fst keys) (st\<lparr>out := out st @ map snd keys\<rparr>) = None"
proof (cases "lookup_key (reg st h) (segments p)")
  case None
  then have "purge_at h t p (reg st) = reg st" by (simp add: purge_at_def update_at_absent)
  with None wf p show ?thesis by (simp add: keys_def search_keys_lookup purge_ok_def target_log_def)
next
  case (Some K)
  obtain a v cs where K: "K = Key a v cs" by (cases K)
  show ?thesis
  proof (cases "a = NoAccess")
    case True
    then have "purge_at h t p (reg st) = reg st"
      using Some K by (simp add: purge_at_def purge_key_def update_at_same)
    with True wf p Some K show ?thesis by (simp add: keys_def search_keys_lookup purge_ok_def target_log_def)
  next
    case False
    let ?S = "reg st h"
    have wfK: "wf_key K" using wf_lookup_key [OF wf_store_key [OF wf] Some] .
    have srch: "keys = scan_spec h t p cs"
      using wf p Some K False by (simp add: keys_def search_keys_lookup)
    have tl: "target_log (reg st) h p t = map snd keys @ concat (map (child_log h t p) cs)"
      using Some K False by (simp add: srch target_log_def)
    let ?st1 = "st\<lparr>out := out st @ map snd keys\<rparr>"
    have dist: "distinct cs" using wfK K by (simp add: distinct_map)
    have start: "reg ?st1 h = update_at (segments p) (\<lambda>_. Key a v cs) ?S"
      using Some K by (simp add: update_at_same)
    have ok: "purge_ok (reg st) h p t \<longleftrightarrow> \<not> (\<exists>e \<in> set cs. blocked h t p e)"
      using Some K False by (simp add: purge_ok_def)
    have "update_at (segments p) (\<lambda>_. Key a v (filter (\<lambda>e. \<not> (e \<in> set cs \<and> removed h t p e)) cs)) ?S =
          update_at (segments p) (purge_key h t p) ?S"
      using Some K False by (intro update_at_cong) (auto simp: purge_key_def intro: filter_cong)
    then have "(reg st)(h := update_at (segments p) (\<lambda>_. Key a v (filter (\<lambda>e. \<not> (e \<in> set cs \<and> removed h t p e)) cs)) ?S)
               = purge_at h t p (reg st)"
      by (simp add: purge_at_def)
    with delete_matches_children [OF p _ subset_refl dist _ start, of t] Some wfK K srch ok tl
    show ?thesis by (auto split: if_splits)
  qed
qed

section \<open>All targets\<close>

lemma rstate_update_both: "(r::rstate)\<lparr>reg := s, out := l\<rparr> = (r'::rstate)\<lparr>reg := s, out := l\<rparr>"
  by (cases r, cases r') simp

lemma purge_trace_run: "map_option fst (purge_trace t ts s) = purge_run t ts s"
  by (induction t ts s rule: purge_trace.induct) (simp_all add: option.map_comp case_prod_beta o_def)

lemma scan_targets_trace:
  "wf_store (reg st) \<Longrightarrow> \<forall>(h, p) \<in> set ts. p \<noteq> [] \<Longrightarrow>
   scan_targets t ts st = map_option (\<lambda>(s, l). st\<lparr>reg := s, out := out st @ l\<rparr>) (purge_trace t ts (reg st))"
proof (induction t ts st rule: scan_targets.induct)
  case (1 t st)
  then show ?case by simp
next
  case (2 t h p ts st)
  let ?keys = "search_keys (reg st) h p t"
  let ?st1 = "st\<lparr>out := out st @ map snd ?keys\<rparr>"
  have p: "p \<noteq> []" and ps: "\<forall>(h, p) \<in> set ts. p \<noteq> []" using "2.prems"(2) by auto
  note run = delete_target_run [OF "2.prems"(1) p, of h t]
  show ?case
  proof (cases "purge_ok (reg st) h p t")
    case True
    with run obtain st2 where d: "delete_matches (map fst ?keys) ?st1 = Some st2"
      and r: "reg st2 = purge_at h t p (reg st)" and o: "out st2 = out st @ target_log (reg st) h p t"
      by auto
    have wf2: "wf_store (reg st2)" using delete_matches_frame [OF d] "2.prems"(1) by simp
    have "scan_targets t ts st2 =
          map_option (\<lambda>(s, l). st2\<lparr>reg := s, out := out st2 @ l\<rparr>) (purge_trace t ts (reg st2))"
      by (rule "2.IH" [OF refl refl d wf2 ps])
    also have "\<dots> = map_option (\<lambda>(s, l). st\<lparr>reg := s, out := out st @ target_log (reg st) h p t @ l\<rparr>)
                        (purge_trace t ts (purge_at h t p (reg st)))"
      by (simp add: r o case_prod_beta rstate_update_both [where r = st2 and r' = st])
    finally show ?thesis using d True by (simp add: Let_def option.map_comp split_def o_def)
  next
    case False
    with run have "delete_matches (map fst ?keys) ?st1 = None" by simp
    with False show ?thesis by (simp add: Let_def)
  qed
qed

lemma scan_targets_refines:
  "wf_store (reg st) \<Longrightarrow> \<forall>(h, p) \<in> set ts. p \<noteq> [] \<Longrightarrow>
   map_option reg (scan_targets t ts st) = purge_run t ts (reg st)"
  by (simp add: scan_targets_trace purge_trace_run [symmetric] option.map_comp case_prod_beta o_def)

lemma purge_at_frame:
  "h' \<noteq> h \<or> diverge (segments p) ns \<Longrightarrow> lookup_key (purge_at h t p s h') ns = lookup_key (s h') ns"
  by (auto simp: purge_at_def lookup_update_at_diverge)

lemma purge_run_frame:
  "purge_run t ts s = Some s' \<Longrightarrow> \<forall>(h, p) \<in> set ts. h' = h \<longrightarrow> diverge (segments p) ns \<Longrightarrow>
   lookup_key (s' h') ns = lookup_key (s h') ns"
proof (induction t ts s rule: purge_run.induct)
  case (2 t h p ts s)
  from "2.prems"(1) have ok: "purge_ok s h p t" and run: "purge_run t ts (purge_at h t p s) = Some s'"
    by (simp_all split: if_splits)
  have "lookup_key (s' h') ns = lookup_key (purge_at h t p s h') ns"
    using "2.IH" [OF ok run] "2.prems"(2) by simp
  also have "\<dots> = lookup_key (s h') ns"
    using "2.prems"(2) by (intro purge_at_frame) auto
  finally show ?case .
qed simp

lemma purge_ok_cong:
  "lookup_key (s h) (segments p) = lookup_key (s' h) (segments p) \<Longrightarrow> purge_ok s h p t = purge_ok s' h p t"
  by (simp add: purge_ok_def)

lemma targets_apart_ConsD:
  "targets_apart ((h, p) # ts) \<Longrightarrow> (h', q) \<in> set ts \<Longrightarrow>
   (h' \<noteq> h \<or> diverge (segments p) (segments q)) \<and> (h \<noteq> h' \<or> diverge (segments q) (segments p))"
  by (auto intro: diverge_sym)

lemma purge_run_result:
  "targets_apart ts \<Longrightarrow> purge_run t ts s = Some s' \<Longrightarrow>
   \<forall>(h, p) \<in> set ts. lookup_key (s' h) (segments p) = map_option (purge_key h t p) (lookup_key (s h) (segments p))"
proof (induction t ts s rule: purge_run.induct)
  case (2 t h p ts s)
  let ?s1 = "purge_at h t p s"
  from "2.prems" have ok: "purge_ok s h p t" and run: "purge_run t ts ?s1 = Some s'"
    and apart: "targets_apart ts" by (simp_all split: if_splits)
  have self: "lookup_key (s' h) (segments p) = map_option (purge_key h t p) (lookup_key (s h) (segments p))"
  proof -
    have "\<forall>(h', q) \<in> set ts. h = h' \<longrightarrow> diverge (segments q) (segments p)"
      using targets_apart_ConsD [OF "2.prems"(1)] by auto
    then have "lookup_key (s' h) (segments p) = lookup_key (?s1 h) (segments p)"
      by (rule purge_run_frame [OF run])
    then show ?thesis by (simp add: purge_at_def lookup_update_at)
  qed
  have "\<forall>(h', q) \<in> set ts. lookup_key (s' h') (segments q) = map_option (purge_key h' t q) (lookup_key (s h') (segments q))"
  proof (intro ballI, clarify)
    fix h' q assume mem: "(h', q) \<in> set ts"
    have "lookup_key (?s1 h') (segments q) = lookup_key (s h') (segments q)"
      using targets_apart_ConsD [OF "2.prems"(1) mem] by (intro purge_at_frame) blast
    with "2.IH" [OF ok apart run] mem
    show "lookup_key (s' h') (segments q) = map_option (purge_key h' t q) (lookup_key (s h') (segments q))"
      by auto
  qed
  with self show ?case by simp
qed simp

lemma purge_run_Some:
  "targets_apart ts \<Longrightarrow> \<forall>(h, p) \<in> set ts. purge_ok s h p t \<Longrightarrow> \<exists>s'. purge_run t ts s = Some s'"
proof (induction ts arbitrary: s)
  case (Cons hp ts)
  obtain h p where hp: "hp = (h, p)" by (cases hp)
  let ?s1 = "purge_at h t p s"
  have "\<forall>(h', q) \<in> set ts. purge_ok ?s1 h' q t"
  proof (intro ballI, clarify)
    fix h' q assume mem: "(h', q) \<in> set ts"
    have "lookup_key (?s1 h') (segments q) = lookup_key (s h') (segments q)"
      using targets_apart_ConsD [OF Cons.prems(1) [unfolded hp] mem] by (intro purge_at_frame) blast
    then have "purge_ok ?s1 h' q t = purge_ok s h' q t" by (rule purge_ok_cong)
    with Cons.prems(2) mem hp show "purge_ok ?s1 h' q t" by auto
  qed
  with Cons.IH [of ?s1] Cons.prems hp show ?case by auto
qed simp

lemma purge_key_idem: "purge_key h t p (purge_key h t p K) = purge_key h t p K"
  by (cases K) (simp add: purge_key_def)

lemma purge_fixed:
  assumes "lookup_key (s h) (segments p) = map_option (purge_key h t p) k"
  shows "purge_ok s h p t \<and> purge_at h t p s = s"
proof (cases k)
  case None
  with assms show ?thesis by (simp add: purge_ok_def purge_at_def update_at_absent)
next
  case (Some K)
  with assms have look: "lookup_key (s h) (segments p) = Some (purge_key h t p K)" by simp
  then have "purge_at h t p s = s"
    by (simp add: purge_at_def update_at_same purge_key_idem)
  moreover have "purge_ok s h p t"
    using look by (auto simp: purge_ok_def purge_key_def blocked_def)
  ultimately show ?thesis by simp
qed

lemma purge_run_fixed:
  "\<forall>(h, p) \<in> set ts. \<exists>k. lookup_key (s h) (segments p) = map_option (purge_key h t p) k \<Longrightarrow>
   purge_run t ts s = Some s"
proof (induction ts)
  case (Cons hp ts)
  obtain h p where hp: "hp = (h, p)" by (cases hp)
  from Cons.prems hp obtain k where "lookup_key (s h) (segments p) = map_option (purge_key h t p) k" by auto
  from purge_fixed [of s h p t k, OF this] Cons hp show ?case by simp
qed simp

lemma scan_targets_quiet:
  "\<forall>(h, p) \<in> set ts. search_keys (reg st) h p t = [] \<Longrightarrow> scan_targets t ts st = Some st"
  by (induction t ts st rule: scan_targets.induct) (auto simp: Let_def)

lemma targets_facts: "targets_apart targets" "\<forall>(h, p) \<in> set targets. p \<noteq> []"
  by (simp_all add: targets_def segments_def join_path_def backslash_def lower_char_def)

lemma main_scan:
  "map_option reg (main st) = map_option reg (scan_targets search_term targets (emit StartingScan st))"
  by (simp add: main_def map_option_bind o_def split: Option.bind_split)

lemma main_returns:
  "wf_store (reg st) \<Longrightarrow> purge_run search_term targets (reg st) = Some s' \<Longrightarrow> \<exists>r. main st = Some r \<and> reg r = s'"
  using main_scan [of st] scan_targets_refines [of "emit StartingScan st" targets search_term] targets_facts(2)
  by (cases "main st") auto

lemma main_purges:
  "wf_store (reg st) \<Longrightarrow> main st = Some r \<Longrightarrow> purge_run search_term targets (reg st) = Some (reg r)"
  using main_scan [of st] scan_targets_refines [of "emit StartingScan st" targets search_term] targets_facts(2)
  by simp

lemma main_wf: "main st = Some r \<Longrightarrow> wf_store (reg st) \<Longrightarrow> wf_store (reg r)"
  using scan_targets_frame by (auto simp: main_def split: Option.bind_splits)

lemma deletable_purge_ok: "deletable s h p t \<Longrightarrow> purge_ok s h p t"
  by (auto simp: deletable_def purge_ok_def blocked_def removed_def split: option.splits)

lemma purged_quiet:
  assumes "wf_store s'" "p \<noteq> []" "deletable s h p t"
    and "lookup_key (s' h) (segments p) = map_option (purge_key h t p) (lookup_key (s h) (segments p))"
  shows "search_keys s' h p t = []"
proof (cases "lookup_key (s h) (segments p)")
  case None
  with assms show ?thesis by (simp add: search_keys_lookup)
next
  case (Some K)
  have "\<forall>e \<in> set (subkeys K). hit h t p e \<longrightarrow> key_acl (snd e) = FullAccess"
    using assms(3) Some by (auto simp: deletable_def intro: all_full_acl)
  then have "\<forall>e \<in> set (filter (\<lambda>e. \<not> removed h t p e) (subkeys K)). \<not> hit h t p e"
    by (auto simp: removed_def)
  with assms Some show ?thesis
    by (simp add: search_keys_lookup purge_key_def scan_spec_Nil_iff)
qed

lemma target_log_cong:
  "lookup_key (s h) (segments p) = lookup_key (s' h) (segments p) \<Longrightarrow> target_log s h p t = target_log s' h p t"
  by (simp add: target_log_def)

lemma fail_log_member: "0 < k \<Longrightarrow> FailedDelete q err \<in> set (fail_log q err k)"
  by (cases k) (simp_all add: fail_log_def)

lemma purge_trace_logs:
  "purge_trace t ts s = Some (s', l) \<Longrightarrow> targets_apart ts \<Longrightarrow> (h, p) \<in> set ts \<Longrightarrow>
   set (target_log s h p t) \<subseteq> set l"
proof (induction t ts s arbitrary: l rule: purge_trace.induct)
  case (2 t h0 p0 ts s)
  from "2.prems"(1) obtain l' where ok: "purge_ok s h0 p0 t"
    and tr: "purge_trace t ts (purge_at h0 t p0 s) = Some (s', l')" and l: "l = target_log s h0 p0 t @ l'"
    by (auto split: if_splits)
  show ?case
  proof (cases "(h, p) = (h0, p0)")
    case True
    then show ?thesis using l by auto
  next
    case False
    with "2.prems"(3) have mem: "(h, p) \<in> set ts" by auto
    have "lookup_key (purge_at h0 t p0 s h) (segments p) = lookup_key (s h) (segments p)"
      using targets_apart_ConsD [OF "2.prems"(2) mem] by (intro purge_at_frame) blast
    then have "target_log (purge_at h0 t p0 s) h p t = target_log s h p t" by (rule target_log_cong)
    with "2.IH" [OF ok tr _ mem] "2.prems"(2) l show ?thesis by auto
  qed
qed simp

lemma purge_trace_fixed:
  "\<forall>(h, p) \<in> set ts. lookup_key (s h) (segments p) = map_option (purge_key h t p) (lookup_key (s h) (segments p)) \<Longrightarrow>
   purge_trace t ts s = Some (s, concat (map (\<lambda>(h, p). target_log s h p t) ts))"
proof (induction ts)
  case (Cons hp ts)
  obtain h p where hp: "hp = (h, p)" by (cases hp)
  from Cons.prems hp have "purge_ok s h p t \<and> purge_at h t p s = s" by (intro purge_fixed) auto
  with Cons hp show ?case by simp
qed simp

lemma main_trace_Some:
  "wf_store (reg st) \<Longrightarrow> purge_trace search_term targets (reg st) = Some (s', l) \<Longrightarrow>
   main st = Some (st\<lparr>reg := s', out := out st @ StartingScan # l @ [ScanComplete]\<rparr>)"
  using scan_targets_trace [of "emit StartingScan st" targets search_term] targets_facts(2)
  by (simp add: main_def emit_def)

lemma refused_logged:
  assumes look: "lookup_key (s h) (segments p) = Some K" and acc: "key_acl K \<noteq> NoAccess"
    and mem: "e \<in> set (subkeys K)" and hit: "hit h t p e" and ro: "key_acl (snd e) \<noteq> FullAccess"
  shows "FailedDelete (join_path p (fst e)) PermissionError \<in> set (target_log s h p t)"
proof -
  have "FailedDelete (join_path p (fst e)) PermissionError \<in> set (child_log h t p e)"
    using hit ro by (auto simp: child_log_def Let_def hit_def intro: fail_log_member)
  with look acc mem show ?thesis by (auto simp: target_log_def)
qed

section \<open>Properties\<close>

text \<open>
  C16. On a well-formed store the module body refines \<open>purge_run\<close>: it returns exactly
  when no target has a blocked match, and then its store is that of the specification
  (each target's fully accessible matches removed, nothing else changed). The witness is
  the store with a protected subkey under a match, on which the script never returns.
\<close>

theorem main_refines_purge:
  "wf_store (reg st) \<Longrightarrow> map_option reg (main st) = purge_run search_term targets (reg st)"
  using main_scan [of st] scan_targets_refines [of "emit StartingScan st" targets search_term] targets_facts(2)
  by simp

theorem main_refines_purge_witness: "main (demo_state locked_shell) = None"
proof -
  have wf: "wf_store (reg (demo_state locked_shell))"
    by (simp add: wf_store_def demo_simps locked_shell_def)
  have "purge_run search_term targets (reg (demo_state locked_shell)) = None"
    by (simp add: targets_def purge_ok_def demo_simps locked_shell_def blocked_def removed_def hit_def
                  scan_spec_def check_name_def value_hits_def search_term_def)
  with main_refines_purge [OF wf] show ?thesis by simp
qed

text \<open>
  C17. Re-running the purge is harmless (property 6 of the specification): whenever a
  run returns, a second run also returns and leaves the store exactly as the first run
  left it. Matches that were refused (no full access) are reported and refused again.
\<close>

theorem main_rerun_same_store:
  assumes wf: "wf_store (reg st)" and run: "main st = Some r"
  shows "\<exists>r'. main r = Some r' \<and> reg r' = reg r"
proof -
  have p1: "purge_run search_term targets (reg st) = Some (reg r)"
    using main_purges [OF wf run] .
  have "\<forall>(h, p) \<in> set targets. \<exists>k. lookup_key (reg r h) (segments p) = map_option (purge_key h search_term p) k"
    using purge_run_result [OF targets_facts(1) p1] by blast
  then have "purge_run search_term targets (reg r) = Some (reg r)" by (rule purge_run_fixed)
  from main_returns [OF main_wf [OF run wf] this] show ?thesis .
qed

theorem main_rerun_same_store_witness:
  "\<exists>r. main (demo_state readonly_shell) = Some r \<and> (\<exists>r'. main r = Some r' \<and> reg r' = reg r)"
proof -
  have wf: "wf_store (reg (demo_state readonly_shell))"
    by (simp add: wf_store_def demo_simps readonly_shell_def)
  have "\<forall>(h, p) \<in> set targets. purge_ok (reg (demo_state readonly_shell)) h p search_term"
    by (simp add: targets_def purge_ok_def demo_simps readonly_shell_def blocked_def removed_def)
  from purge_run_Some [OF targets_facts(1) this] obtain s' where
    "purge_run search_term targets (reg (demo_state readonly_shell)) = Some s'" by blast
  with main_returns [OF wf] obtain r where r: "main (demo_state readonly_shell) = Some r"
    by blast
  from main_rerun_same_store [OF wf r] r show ?thesis by blast
qed

text \<open>
  C15. If every subkey the scan reports under the six targets grants full access
  throughout its subtree, the module body returns, and a second run finds nothing: it
  prints only the start and completion lines and leaves the store as the first run left it.
\<close>

theorem main_rerun_clean:
  assumes wf: "wf_store (reg st)" and del: "\<forall>(h, p) \<in> set targets. deletable (reg st) h p search_term"
  shows "\<exists>r. main st = Some r \<and> main r = Some (emit ScanComplete (emit StartingScan r))"
proof -
  have "\<forall>(h, p) \<in> set targets. purge_ok (reg st) h p search_term"
    using del deletable_purge_ok by blast
  from purge_run_Some [OF targets_facts(1) this] obtain s' where
    p1: "purge_run search_term targets (reg st) = Some s'" by blast
  with main_returns [OF wf] obtain r where run: "main st = Some r" and rs: "reg r = s'"
    by blast
  have wfr: "wf_store (reg r)" by (rule main_wf [OF run wf])
  have "\<forall>(h, p) \<in> set targets. search_keys (reg r) h p search_term = []"
  proof (intro ballI, clarify)
    fix h p assume mem: "(h, p) \<in> set targets"
    with targets_facts(2) have "p \<noteq> []" by auto
    with wfr del mem purge_run_result [OF targets_facts(1) p1] rs
    show "search_keys (reg r) h p search_term = []" by (auto intro: purged_quiet)
  qed
  then have "scan_targets search_term targets (emit StartingScan r) = Some (emit StartingScan r)"
    by (intro scan_targets_quiet) simp
  with run show ?thesis by (auto simp: main_def)
qed

theorem main_rerun_clean_witness:
  "\<exists>r. main (demo_state demo_shell) = Some r \<and> main r = Some (emit ScanComplete (emit StartingScan r))"
proof -
  have "\<forall>(h, p) \<in> set targets. deletable (reg (demo_state demo_shell)) h p search_term"
    by (simp add: targets_def deletable_def demo_simps demo_shell_def hit_def
                  scan_spec_def check_name_def value_hits_def search_term_def)
  with demo_wf_store show ?thesis by (rule main_rerun_clean)
qed

text \<open>
  C21. On a well-formed store the module body prints exactly what \<open>purge_trace\<close>
  specifies, in order: the start line, then for each target its matches and then,
  subkey by subkey, the deletion log (\<open>child_log\<close>), then the completion line; and it
  leaves the store of \<open>purge_trace\<close>. The witness is the full output on the store with a
  read-only match: two reports and two refused deletions.
\<close>

theorem main_trace:
  "wf_store (reg st) \<Longrightarrow>
   main st = map_option (\<lambda>(s, l). st\<lparr>reg := s, out := out st @ StartingScan # l @ [ScanComplete]\<rparr>)
               (purge_trace search_term targets (reg st))"
  using scan_targets_trace [of "emit StartingScan st" targets search_term] targets_facts(2)
  by (cases "purge_trace search_term targets (reg st)") (auto simp: main_def emit_def)

theorem main_trace_witness:
  "main (demo_state readonly_shell) =
     Some ((demo_state readonly_shell)\<lparr>out :=
       [StartingScan,
        FoundKeyName (join_path shell_path ''AntigravityShell''),
        FoundValue (join_path shell_path ''AntigravityShell'') ''Open with Antigravity'',
        Attempting (join_path shell_path ''AntigravityShell''),
        FailedDelete (join_path shell_path ''AntigravityShell'') PermissionError,
        Attempting (join_path shell_path ''AntigravityShell''),
        FailedDelete (join_path shell_path ''AntigravityShell'') PermissionError,
        ScanComplete]\<rparr>)"
proof -
  let ?st = "demo_state readonly_shell"
  have wf: "wf_store (reg ?st)"
    by (simp add: wf_store_def demo_simps readonly_shell_def)
  have "\<forall>(h, p) \<in> set targets.
      lookup_key (reg ?st h) (segments p) = map_option (purge_key h search_term p) (lookup_key (reg ?st h) (segments p))"
    by (simp add: targets_def demo_simps readonly_shell_def purge_key_def removed_def hit_def
                  scan_spec_def check_name_def value_hits_def search_term_def)
  from main_trace [OF wf, unfolded purge_trace_fixed [OF this]] show ?thesis
    by (simp add: targets_def target_log_def child_log_def fail_log_def demo_simps readonly_shell_def
                  scan_spec_def check_name_def value_hits_def search_term_def Let_def)
qed

text \<open>
  C20. A refused match is refused again on every run. If a run returns, then for every
  subkey that the scan reports under a readable target and that does not grant full
  access, the second run returns, leaves the store as it is, and prints a
  \<open>PermissionError\<close> failure for that subkey. The specification's re-run property allows
  only not-found failures on the second run. The witness is the store whose matched
  entry is read-only.
\<close>

theorem rerun_refused_again:
  assumes wf: "wf_store (reg st)" and run: "main st = Some r" and tgt: "(h, p) \<in> set targets"
    and look: "lookup_key (reg st h) (segments p) = Some K" and acc: "key_acl K \<noteq> NoAccess"
    and mem: "e \<in> set (subkeys K)" and hit: "hit h search_term p e" and ro: "key_acl (snd e) \<noteq> FullAccess"
  shows "\<exists>r'. main r = Some r' \<and> reg r' = reg r \<and>
           FailedDelete (join_path p (fst e)) PermissionError \<in> set (drop (length (out r)) (out r'))"
proof -
  have p1: "purge_run search_term targets (reg st) = Some (reg r)"
    using main_purges [OF wf run] .
  have res: "\<forall>(h, p) \<in> set targets.
      lookup_key (reg r h) (segments p) = map_option (purge_key h search_term p) (lookup_key (reg st h) (segments p))"
    using purge_run_result [OF targets_facts(1) p1] .
  then have "purge_run search_term targets (reg r) = Some (reg r)" by (intro purge_run_fixed) blast
  then obtain l where tr: "purge_trace search_term targets (reg r) = Some (reg r, l)"
    using purge_trace_run [of search_term targets "reg r"] by (cases "purge_trace search_term targets (reg r)") auto
  have main2: "main r = Some (r\<lparr>reg := reg r, out := out r @ StartingScan # l @ [ScanComplete]\<rparr>)"
    by (rule main_trace_Some [OF main_wf [OF run wf] tr])
  have look2: "lookup_key (reg r h) (segments p) = Some (purge_key h search_term p K)"
    using res tgt look by auto
  have "e \<in> set (subkeys (purge_key h search_term p K))"
    using acc mem ro by (cases K) (auto simp: purge_key_def removed_def)
  moreover have "key_acl (purge_key h search_term p K) \<noteq> NoAccess"
    using acc by (cases K) (simp add: purge_key_def)
  ultimately have "FailedDelete (join_path p (fst e)) PermissionError \<in> set (target_log (reg r) h p search_term)"
    using look2 hit ro by (intro refused_logged) auto
  with purge_trace_logs [OF tr targets_facts(1) tgt] main2 show ?thesis by auto
qed

theorem rerun_refused_again_witness:
  "\<exists>r r'. main (demo_state readonly_shell) = Some r \<and> main r = Some r' \<and> reg r' = reg r \<and>
     FailedDelete (join_path shell_path ''AntigravityShell'') PermissionError \<in> set (drop (length (out r)) (out r'))"
proof -
  let ?st = "demo_state readonly_shell"
  let ?e = "(''AntigravityShell'', Key ReadOnly (Some (RegSz ''Open with Antigravity'')) [])"
  have wf: "wf_store (reg ?st)"
    by (simp add: wf_store_def demo_simps readonly_shell_def)
  have "\<forall>(h, p) \<in> set targets. purge_ok (reg ?st) h p search_term"
    by (simp add: targets_def purge_ok_def demo_simps readonly_shell_def blocked_def removed_def)
  from purge_run_Some [OF targets_facts(1) this] obtain s' where
    "purge_run search_term targets (reg ?st) = Some s'" by blast
  with main_returns [OF wf] obtain r where r: "main ?st = Some r" by blast
  have "(HKEY_CURRENT_USER, shell_path) \<in> set targets" by (simp add: targets_def shell_path_def)
  moreover have "lookup_key (reg ?st HKEY_CURRENT_USER) (segments shell_path) = Some readonly_shell"
    by (simp add: demo_simps)
  moreover have "key_acl readonly_shell \<noteq> NoAccess" "?e \<in> set (subkeys readonly_shell)"
    "hit HKEY_CURRENT_USER search_term shell_path ?e" "key_acl (snd ?e) \<noteq> FullAccess"
    by (simp_all add: readonly_shell_def hit_def scan_spec_def check_name_def search_term_def)
  ultimately have "\<exists>r'. main r = Some r' \<and> reg r' = reg r \<and>
      FailedDelete (join_path shell_path (fst ?e)) PermissionError \<in> set (drop (length (out r)) (out r'))"
    by (intro rerun_refused_again [OF wf r]) 
  with r show ?thesis by auto
qed

end
