(* ===== verification/Delete_Order.thy ===== *)
theory Delete_Order
  imports Clean_Reg
begin

text \<open>
  The order in which \<open>delete_key\<close> of \<open>src/scripts/clean_reg.py\<close> deletes a subtree
  (property 4 of the specification). \<open>key_paths p k\<close> lists every key of the subtree
  \<open>k\<close> at path \<open>p\<close> with its own subtree, \<open>desc_paths p k\<close> the paths of its proper
  descendants. A \<open>SUCCESS: Deleted\<close> line is printed right after its \<open>DeleteKey\<close>
  returns, so the order of these lines is the order of the deletions.
\<close>

section \<open>Definitions\<close>

fun key_paths :: "string \<Rightarrow> rkey \<Rightarrow> (string \<times> rkey) list" where
  "key_paths p (Key a v cs) = (p, Key a v cs) # concat (map (\<lambda>(n, c). key_paths (join_path p n) c) cs)"

fun desc_paths :: "string \<Rightarrow> rkey \<Rightarrow> string list" where
  "desc_paths p (Key a v cs) = concat (map (\<lambda>(n, c). join_path p n # desc_paths (join_path p n) c) cs)"

section \<open>Lemmas\<close>

lemma delete_log_deleted: "q \<in> set (p # desc_paths p k) \<Longrightarrow> Deleted q \<in> set (delete_log p k)"
proof (induction k arbitrary: p q)
  case (Key a v cs)
  then show ?case by (fastforce split: prod.splits)
qed

lemma concat_map_split:
  "x \<in> set xs \<Longrightarrow> \<exists>pre post. concat (map f xs) = concat (map f pre) @ f x @ concat (map f post)"
  by (metis concat_append concat.simps(2) map_append list.map(2) split_list)

lemma delete_log_order:
  "(q, c) \<in> set (key_paths p k) \<Longrightarrow>
   \<exists>ys zs. delete_log p k = ys @ Deleted q # zs \<and> set (map Deleted (desc_paths q c)) \<subseteq> set ys"
proof (induction k arbitrary: p)
  case (Key a v cs)
  let ?f = "\<lambda>(n, c). delete_log (join_path p n) c"
  show ?case
  proof (cases "(q, c) = (p, Key a v cs)")
    case True
    have "set (map Deleted (desc_paths p (Key a v cs))) \<subseteq> set (concat (map ?f cs))"
      using delete_log_deleted by fastforce
    then have sub: "set (map Deleted (desc_paths p (Key a v cs))) \<subseteq> set (Attempting p # concat (map ?f cs))"
      by (metis set_subset_Cons subset_trans)
    have "delete_log p (Key a v cs) = (Attempting p # concat (map ?f cs)) @ Deleted p # []" by simp
    with sub True show ?thesis by blast
  next
    case False
    with Key.prems obtain n c0 where mem: "(n, c0) \<in> set cs" and qc: "(q, c) \<in> set (key_paths (join_path p n) c0)"
      by auto
    from Key.IH [OF mem qc] obtain ys zs where
      l: "delete_log (join_path p n) c0 = ys @ Deleted q # zs" and d: "set (map Deleted (desc_paths q c)) \<subseteq> set ys"
      by blast
    from concat_map_split [OF mem, of ?f] obtain pre post where
      "concat (map ?f cs) = concat (map ?f pre) @ ?f (n, c0) @ concat (map ?f post)" by blast
    with l d show ?thesis
      by (intro exI [of _ "Attempting p # concat (map ?f pre) @ ys"] exI [of _ "zs @ concat (map ?f post) @ [Deleted p]"])
         auto
  qed
qed

section \<open>Properties\<close>

text \<open>
  C27. Children first (property 4 of the specification): when \<open>delete_key\<close> deletes a
  subtree that grants full access throughout, every key of the subtree is deleted, and
  each one only after all of its descendants: its \<open>SUCCESS\<close> line is preceded by the
  \<open>SUCCESS\<close> lines of every proper descendant. The witness is the demo menu entry and its
  \<open>command\<close> subkey.
\<close>

theorem delete_key_children_first:
  assumes "p \<noteq> []" and "wf_key k" and "lookup_key (reg st h) (segments p) = Some k" and "all_full k"
    and "(q, c) \<in> set (key_paths p k)"
  shows "\<exists>r ys zs. delete_key h p st = Some r \<and> out r = out st @ ys @ Deleted q # zs \<and>
           set (map Deleted (desc_paths q c)) \<subseteq> set ys"
proof -
  have "delete_key h p st = Some (delete_spec h p k st)"
    unfolding delete_key_def by (rule delete_run_DelKey_spec [OF assms(1-4)])
  with delete_log_order [OF assms(5)] show ?thesis by (auto simp: delete_spec_def)
qed

theorem delete_key_children_first_witness:
  "\<exists>r ys zs. delete_key HKEY_CURRENT_USER (join_path shell_path ''AntigravityShell'') (demo_state demo_shell) = Some r \<and>
     out r = ys @ Deleted (join_path shell_path ''AntigravityShell'') # zs \<and>
     Deleted (join_path (join_path shell_path ''AntigravityShell'') ''command'') \<in> set ys"
proof -
  let ?p = "join_path shell_path ''AntigravityShell''"
  let ?k = "Key FullAccess (Some (RegSz ''Open with Antigravity''))
              [(''command'', Key FullAccess (Some (RegExpandSz ''ag.exe %V'')) [])]"
  have "?p \<noteq> []" by simp
  moreover have "(?p, ?k) \<in> set (key_paths ?p ?k)" by simp
  ultimately show ?thesis
    using delete_key_children_first [OF _ demo_antigravity(2,1,3), of ?p ?k]
    by (simp add: demo_state_def)
qed

end
