(* ===== verification/Console_Run.thy ===== *)
theory Console_Run
  imports Scan_Records
begin

text \<open>
  The module body of \<open>src/scripts/clean_reg.py\<close> on a console \<open>pr\<close> that may refuse a
  line (its encoding cannot represent a key path or a value). A refused \<open>print\<close> raises
  \<open>UnicodeEncodeError\<close>. In \<open>delete_key\<close> the first print (line 38) is outside the
  \<open>try\<close>, so the exception leaves the call; inside the subkey loop it is not an
  \<open>OSError\<close>, so it leaves the loop too and reaches the \<open>except Exception\<close> of the parent
  call (line 52), which prints its \<open>FAILED\<close> line, itself a print that may be refused. The
  \<open>SUCCESS\<close> print (line 50) is inside the \<open>try\<close>: when it is refused the key is already
  deleted and the handler runs. In the module body nothing catches: an escaping exception
  ends the script. A result \<open>Some (st, True)\<close> is a call that raised, \<open>Some (st, False)\<close>
  one that returned, \<open>None\<close> one that never returns.
\<close>

section \<open>Definitions\<close>

text \<open>The handler of \<open>delete_key\<close> (lines 52--53): print the failure line, or raise.\<close>

definition handle_failed :: "(log_line \<Rightarrow> bool) \<Rightarrow> log_line \<Rightarrow> rstate \<Rightarrow> rstate \<times> bool" where
  "handle_failed pr l st = (if pr l then (emit l st, False) else (st, True))"

partial_function (option) delete_run_io ::
  "(log_line \<Rightarrow> bool) \<Rightarrow> hive \<Rightarrow> del_call \<Rightarrow> rstate \<Rightarrow> (rstate \<times> bool) option" where
  "delete_run_io pr h c st =
     (case c of
        DelKey key_path \<Rightarrow>
          (if \<not> pr (Attempting key_path) then Some (st, True)
           else
             (let st1 = emit (Attempting key_path) st
              in case OpenKey (reg st1) h key_path KEY_ALL_ACCESS of
                   Inl e \<Rightarrow> Some (handle_failed pr (FailedDelete key_path e) st1)
                 | Inr key \<Rightarrow>
                     do {
                       (st2, raised) \<leftarrow> delete_run_io pr h (DelSubkeys key_path key) st1;
                       if raised then Some (handle_failed pr (FailedEncode key_path) st2)
                       else
                         (case DeleteKey (reg st2) h key_path of
                            Inl e \<Rightarrow> Some (handle_failed pr (FailedDelete key_path e) st2)
                          | Inr s' \<Rightarrow>
                              if pr (Deleted key_path)
                              then Some (emit (Deleted key_path) (st2\<lparr>reg := s'\<rparr>), False)
                              else Some (handle_failed pr (FailedEncode key_path) (st2\<lparr>reg := s'\<rparr>)))
                     }))
      | DelSubkeys key_path key \<Rightarrow>
          (case EnumKey (reg st) key 0 of
             Inl e \<Rightarrow> Some (st, False)
           | Inr sub_key \<Rightarrow>
               do {
                 (st', raised) \<leftarrow> delete_run_io pr h (DelKey (join_path key_path sub_key)) st;
                 if raised then Some (st', True) else delete_run_io pr h (DelSubkeys key_path key) st'
               }))"

definition delete_key_io :: "(log_line \<Rightarrow> bool) \<Rightarrow> hive \<Rightarrow> string \<Rightarrow> rstate \<Rightarrow> (rstate \<times> bool) option" where
  "delete_key_io pr h key_path st = delete_run_io pr h (DelKey key_path) st"

text \<open>The deletion loop of the module body (lines 68--69): an exception ends it.\<close>

fun delete_matches_io :: "(log_line \<Rightarrow> bool) \<Rightarrow> match list \<Rightarrow> rstate \<Rightarrow> (rstate \<times> bool) option" where
  "delete_matches_io pr [] st = Some (st, False)"
| "delete_matches_io pr ((h, k, reasoning) # ms) st =
     do {
       (st', raised) \<leftarrow> delete_key_io pr h k st;
       if raised then Some (st', True) else delete_matches_io pr ms st'
     }"

text \<open>The loop over the targets (lines 65--69): the scan's own refused prints end the scan
  quietly (\<open>search_keys_io\<close>), a raise in a deletion ends the script.\<close>

fun scan_targets_io :: "(log_line \<Rightarrow> bool) \<Rightarrow> string \<Rightarrow> (hive \<times> string) list \<Rightarrow> rstate \<Rightarrow>
                        (rstate \<times> bool) option" where
  "scan_targets_io pr term [] st = Some (st, False)"
| "scan_targets_io pr term ((h, path) # ts) st =
     (case search_keys_io pr (reg st) h path term of
        (ms, printed) \<Rightarrow>
          do {
            (st2, raised) \<leftarrow> delete_matches_io pr ms (st\<lparr>out := out st @ printed\<rparr>);
            if raised then Some (st2, True) else scan_targets_io pr term ts st2
          })"

text \<open>The module body (lines 64--71).\<close>

definition main_io :: "(log_line \<Rightarrow> bool) \<Rightarrow> rstate \<Rightarrow> (rstate \<times> bool) option" where
  "main_io pr st =
     (if \<not> pr StartingScan then Some (st, True)
      else
        do {
          (st', raised) \<leftarrow> scan_targets_io pr search_term targets (emit StartingScan st);
          if raised then Some (st', True)
          else if pr ScanComplete then Some (emit ScanComplete st', False)
          else Some (st', True)
        })"

section \<open>Lemmas\<close>

lemma list_all_prefix: "prefix xs ys \<Longrightarrow> list_all P ys \<Longrightarrow> list_all P xs"
  by (auto simp: list_all_iff prefix_def)

lemma delete_run_io_accepted:
  assumes ret: "delete_run h c st = Some r"
  shows "prefix (out st) (out r) \<and> (list_all pr (out r) \<longrightarrow> delete_run_io pr h c st = Some (r, False))"
proof (rule delete_run.raw_induct
    [where P = "\<lambda>h c st r. prefix (out st) (out r) \<and> (list_all pr (out r) \<longrightarrow> delete_run_io pr h c st = Some (r, False))",
     OF _ ret])
  fix f h c st r
  assume IH: "\<And>h' c' st' r'. f h' c' st' = Some r' \<Longrightarrow>
      prefix (out st') (out r') \<and> (list_all pr (out r') \<longrightarrow> delete_run_io pr h' c' st' = Some (r', False))"
    and body: "(case c of
        DelKey key_path \<Rightarrow>
          (let st1 = emit (Attempting key_path) st
           in case OpenKey (reg st1) h key_path KEY_ALL_ACCESS of
                Inl e \<Rightarrow> Some (emit (FailedDelete key_path e) st1)
              | Inr key \<Rightarrow>
                  f h (DelSubkeys key_path key) st1 \<bind>
                  (\<lambda>st2. case DeleteKey (reg st2) h key_path of
                      Inl e \<Rightarrow> Some (emit (FailedDelete key_path e) st2)
                    | Inr s' \<Rightarrow> Some (emit (Deleted key_path) (st2\<lparr>reg := s'\<rparr>))))
      | DelSubkeys key_path key \<Rightarrow>
          (case EnumKey (reg st) key 0 of
             Inl e \<Rightarrow> Some st
           | Inr sub_key \<Rightarrow>
               f h (DelKey (join_path key_path sub_key)) st \<bind> f h (DelSubkeys key_path key))) = Some r"
  show "prefix (out st) (out r) \<and> (list_all pr (out r) \<longrightarrow> delete_run_io pr h c st = Some (r, False))"
  proof (cases c)
    case (DelKey p)
    show ?thesis
    proof (cases "OpenKey (reg st) h p KEY_ALL_ACCESS")
      case (Inl e)
      with body DelKey show ?thesis
        by (subst delete_run_io.simps) (auto simp: handle_failed_def)
    next
      case (Inr key)
      with body DelKey obtain st2 where
        f: "f h (DelSubkeys p key) (emit (Attempting p) st) = Some st2"
        and r: "(case DeleteKey (reg st2) h p of
                   Inl e \<Rightarrow> Some (emit (FailedDelete p e) st2)
                 | Inr s' \<Rightarrow> Some (emit (Deleted p) (st2\<lparr>reg := s'\<rparr>))) = Some r"
        by (auto split: Option.bind_splits)
      from IH [OF f] have pre: "prefix (out st @ [Attempting p]) (out st2)"
        and io: "list_all pr (out st2) \<longrightarrow> delete_run_io pr h (DelSubkeys p key) (emit (Attempting p) st) = Some (st2, False)"
        by simp_all
      have out_r: "out r = out st2 @ [last (out r)]" and pre_r: "prefix (out st2) (out r)"
        using r by (auto split: sum.splits)
      have "prefix (out st) (out r)"
        using pre pre_r by (metis prefix_order.trans append_prefixD)
      moreover have "list_all pr (out r) \<longrightarrow> delete_run_io pr h (DelKey p) st = Some (r, False)"
      proof
        assume acc: "list_all pr (out r)"
        then have acc2: "list_all pr (out st2)" by (rule list_all_prefix [OF pre_r])
        with pre have "pr (Attempting p)" by (auto simp: list_all_iff prefix_def)
        with acc acc2 io Inr r show "delete_run_io pr h (DelKey p) st = Some (r, False)"
          by (subst delete_run_io.simps) (auto simp: handle_failed_def split: sum.splits)
      qed
      ultimately show ?thesis using DelKey by simp
    qed
  next
    case (DelSubkeys p kh)
    show ?thesis
    proof (cases "EnumKey (reg st) kh 0")
      case (Inl e)
      with body DelSubkeys show ?thesis by (subst delete_run_io.simps) auto
    next
      case (Inr sub)
      with body DelSubkeys obtain st' where
        f1: "f h (DelKey (join_path p sub)) st = Some st'" and f2: "f h (DelSubkeys p kh) st' = Some r"
        by (auto split: Option.bind_splits)
      from IH [OF f1] IH [OF f2] Inr DelSubkeys show ?thesis
        by (subst delete_run_io.simps) (auto intro: prefix_order.trans dest: list_all_prefix)
    qed
  qed
qed

lemma delete_run_io_prints_all_Some:
  assumes ret: "delete_run_io (\<lambda>_. True) h c st = Some y"
  shows "snd y = False \<and> delete_run h c st = Some (fst y)"
proof -
  have "(\<lambda>_. True) = (\<lambda>_::log_line. True) \<longrightarrow> snd y = False \<and> delete_run h c st = Some (fst y)"
  proof (rule delete_run_io.raw_induct
      [where P = "\<lambda>pr h c st y. pr = (\<lambda>_. True) \<longrightarrow> snd y = False \<and> delete_run h c st = Some (fst y)",
       OF _ ret])
    fix f pr h c st y
    assume IH: "\<And>pr' h' c' st' y'. f pr' h' c' st' = Some y' \<Longrightarrow>
        pr' = (\<lambda>_. True) \<longrightarrow> snd y' = False \<and> delete_run h' c' st' = Some (fst y')"
      and body: "(case c of
        DelKey key_path \<Rightarrow>
          (if \<not> pr (Attempting key_path) then Some (st, True)
           else
             (let st1 = emit (Attempting key_path) st
              in case OpenKey (reg st1) h key_path KEY_ALL_ACCESS of
                   Inl e \<Rightarrow> Some (handle_failed pr (FailedDelete key_path e) st1)
                 | Inr key \<Rightarrow>
                     do {
                       (st2, raised) \<leftarrow> f pr h (DelSubkeys key_path key) st1;
                       if raised then Some (handle_failed pr (FailedEncode key_path) st2)
                       else
                         (case DeleteKey (reg st2) h key_path of
                            Inl e \<Rightarrow> Some (handle_failed pr (FailedDelete key_path e) st2)
                          | Inr s' \<Rightarrow>
                              if pr (Deleted key_path)
                              then Some (emit (Deleted key_path) (st2\<lparr>reg := s'\<rparr>), False)
                              else Some (handle_failed pr (FailedEncode key_path) (st2\<lparr>reg := s'\<rparr>)))
                     }))
      | DelSubkeys key_path key \<Rightarrow>
          (case EnumKey (reg st) key 0 of
             Inl e \<Rightarrow> Some (st, False)
           | Inr sub_key \<Rightarrow>
               do {
                 (st', raised) \<leftarrow> f pr h (DelKey (join_path key_path sub_key)) st;
                 if raised then Some (st', True) else f pr h (DelSubkeys key_path key) st'
               })) = Some y"
    show "pr = (\<lambda>_. True) \<longrightarrow> snd y = False \<and> delete_run h c st = Some (fst y)"
    proof
      assume pr: "pr = (\<lambda>_. True)"
      have IH': "\<And>h' c' st' y'. f (\<lambda>_. True) h' c' st' = Some y' \<Longrightarrow>
          snd y' = False \<and> delete_run h' c' st' = Some (fst y')"
        using IH by blast
      note body' = body [unfolded pr]
      show "snd y = False \<and> delete_run h c st = Some (fst y)"
      proof (cases c)
        case (DelKey p)
        with body' show ?thesis
          by (subst delete_run.simps)
             (auto simp: handle_failed_def Let_def split: sum.splits Option.bind_splits if_splits dest!: IH')
      next
        case (DelSubkeys p kh)
        with body' show ?thesis
          by (subst delete_run.simps) (auto split: sum.splits Option.bind_splits if_splits dest!: IH')
      qed
    qed
  qed
  then show ?thesis by simp
qed

lemma delete_run_io_prints_all:
  "delete_run_io (\<lambda>_. True) h c st = map_option (\<lambda>r. (r, False)) (delete_run h c st)"
proof (cases "delete_run h c st")
  case None
  then show ?thesis
    using delete_run_io_prints_all_Some [of h c st] by (cases "delete_run_io (\<lambda>_. True) h c st") auto
next
  case (Some r)
  then show ?thesis using delete_run_io_accepted [OF Some, of "\<lambda>_. True"] by (simp add: list_all_iff)
qed

lemma search_keys_io_accepted:
  "list_all pr (map snd (search_keys s h kp t)) \<Longrightarrow>
   search_keys_io pr s h kp t = (map fst (search_keys s h kp t), map snd (search_keys s h kp t))"
  by (auto simp: search_keys_io_def search_keys_def OpenKey_def search_loop_unfold search_loop_io_unfold
                 print_prefix_all list.pred_map split: option.split)

lemma delete_matches_io_accepted:
  "delete_matches ms st = Some r \<Longrightarrow> list_all pr (out r) \<Longrightarrow> delete_matches_io pr ms st = Some (r, False)"
proof (induction ms st rule: delete_matches.induct)
  case (2 h k reasoning ms st)
  from "2.prems"(1) obtain st' where d: "delete_key h k st = Some st'" and m: "delete_matches ms st' = Some r"
    by (auto split: Option.bind_splits)
  have "list_all pr (out st')"
    using delete_matches_frame [OF m] "2.prems"(2) by (auto dest: list_all_prefix)
  then have "delete_key_io pr h k st = Some (st', False)"
    using delete_run_io_accepted [of h "DelKey k" st st' pr] d by (simp add: delete_key_def delete_key_io_def)
  with "2.IH" [OF d m "2.prems"(2)] show ?case by simp
qed simp

lemma scan_targets_io_accepted:
  "scan_targets t ts st = Some r \<Longrightarrow> list_all pr (out r) \<Longrightarrow> scan_targets_io pr t ts st = Some (r, False)"
proof (induction t ts st rule: scan_targets.induct)
  case (2 t h p ts st)
  let ?keys = "search_keys (reg st) h p t"
  let ?st1 = "st\<lparr>out := out st @ map snd ?keys\<rparr>"
  from "2.prems"(1) obtain st2 where d: "delete_matches (map fst ?keys) ?st1 = Some st2"
    and t: "scan_targets t ts st2 = Some r"
    by (auto simp: Let_def split: Option.bind_splits)
  have acc2: "list_all pr (out st2)"
    using scan_targets_frame [OF t] "2.prems"(2) by (auto dest: list_all_prefix)
  then have "list_all pr (out ?st1)"
    using delete_matches_frame [OF d] by (auto dest: list_all_prefix)
  then have "search_keys_io pr (reg st) h p t = (map fst ?keys, map snd ?keys)"
    by (intro search_keys_io_accepted) simp
  with delete_matches_io_accepted [OF d acc2] "2.IH" [OF refl refl d t "2.prems"(2)] show ?case by simp
qed simp

lemma delete_matches_io_prints_all:
  "delete_matches_io (\<lambda>_. True) ms st = map_option (\<lambda>r. (r, False)) (delete_matches ms st)"
proof (induction ms st rule: delete_matches.induct)
  case (2 h k reasoning ms st)
  then show ?case
    by (cases "delete_key h k st") (auto simp: delete_key_io_def delete_key_def delete_run_io_prints_all)
qed simp

lemma scan_targets_io_prints_all:
  "scan_targets_io (\<lambda>_. True) t ts st = map_option (\<lambda>r. (r, False)) (scan_targets t ts st)"
proof (induction t ts st rule: scan_targets.induct)
  case (2 t h p ts st)
  have "search_keys_io (\<lambda>_. True) (reg st) h p t =
          (map fst (search_keys (reg st) h p t), map snd (search_keys (reg st) h p t))"
    by (intro search_keys_io_accepted) (simp add: list_all_iff)
  with "2.IH" show ?case
    by (cases "delete_matches (map fst (search_keys (reg st) h p t))
                 (st\<lparr>out := out st @ map snd (search_keys (reg st) h p t)\<rparr>)")
       (auto simp: Let_def delete_matches_io_prints_all)
qed simp

section \<open>Properties\<close>

text \<open>
  C28. A subkey whose path the console cannot print stops the deletion of its parent: the
  refused \<open>Attempting\<close> line of the first subkey raises inside the subkey loop, which
  catches only \<open>OSError\<close>, so the parent's handler prints \<open>FAILED\<close> and returns. The parent
  and its whole subtree stay in the store, and the loop that would otherwise run forever
  on a protected subkey is left at once.
\<close>

theorem delete_key_io_child_refused:
  assumes "lookup_key (reg st h) (segments p) = Some (Key FullAccess v ((n, c) # cs))"
    and "pr (Attempting p)" and "\<not> pr (Attempting (join_path p n))" and "pr (FailedEncode p)"
  shows "delete_key_io pr h p st = Some (st\<lparr>out := out st @ [Attempting p, FailedEncode p]\<rparr>, False)"
proof -
  have open_p: "OpenKey (reg st) h p KEY_ALL_ACCESS = Inr (h, segments p)"
    using assms(1) by (simp add: OpenKey_def)
  have enum: "EnumKey (reg st) (h, segments p) 0 = Inr n"
    using assms(1) by (simp add: EnumKey_def)
  let ?st1 = "emit (Attempting p) st"
  have child: "delete_run_io pr h (DelKey (join_path p n)) ?st1 = Some (?st1, True)"
    using assms(3) by (subst delete_run_io.simps) simp
  have loop: "delete_run_io pr h (DelSubkeys p (h, segments p)) ?st1 = Some (?st1, True)"
    by (subst delete_run_io.simps) (simp add: enum child)
  show ?thesis
    unfolding delete_key_io_def
    by (subst delete_run_io.simps) (simp add: assms(2,4) open_p loop handle_failed_def del: out_emit, simp add: emit_def)
qed

theorem delete_key_io_child_refused_witness:
  "delete_key_io (\<lambda>l. l \<noteq> Attempting (join_path (join_path shell_path ''AntigravityShell'') ''command''))
     HKEY_CURRENT_USER (join_path shell_path ''AntigravityShell'') (demo_state demo_shell) =
   Some ((demo_state demo_shell)\<lparr>out := [Attempting (join_path shell_path ''AntigravityShell''),
                                          FailedEncode (join_path shell_path ''AntigravityShell'')]\<rparr>, False)"
proof -
  have "lookup_key (reg (demo_state demo_shell) HKEY_CURRENT_USER) (segments (join_path shell_path ''AntigravityShell'')) =
        Some (Key FullAccess (Some (RegSz ''Open with Antigravity''))
          [(''command'', Key FullAccess (Some (RegExpandSz ''ag.exe %V'')) [])])"
    by (rule demo_antigravity(1))
  moreover have "Attempting (join_path shell_path ''AntigravityShell'') \<noteq>
                 Attempting (join_path (join_path shell_path ''AntigravityShell'') ''command'')"
    by (simp add: join_path_def)
  ultimately show ?thesis
    using delete_key_io_child_refused [where pr = "\<lambda>l. l \<noteq> Attempting (join_path (join_path shell_path ''AntigravityShell'') ''command'')"]
    by (simp add: demo_state_def)
qed

text \<open>
  C29. A reported key whose path the console cannot print ends the script. If the first
  match the scan of the first target returns has a refused \<open>Attempting\<close> line, the print
  of line 38 raises outside the \<open>try\<close> of \<open>delete_key\<close> and nothing in the module body
  catches it: the run stops there, nothing of that target is deleted and no later target
  is scanned. The witness is a console that refuses every line naming the demo entry:
  its \<open>FOUND\<close> line is refused too, so the scan returns the match unreported (C26) and the
  deletion then raises.
\<close>

theorem main_io_match_refused:
  assumes "pr StartingScan"
    and "search_keys_io pr (reg st) HKEY_CURRENT_USER shell_path search_term = ((h', k, rs) # ms, printed)"
    and "\<not> pr (Attempting k)"
  shows "main_io pr st = Some (st\<lparr>out := out st @ StartingScan # printed\<rparr>, True)"
proof -
  obtain rest where t: "targets = (HKEY_CURRENT_USER, shell_path) # rest"
    by (simp add: targets_def shell_path_def)
  have d: "delete_key_io pr h' k st' = Some (st', True)" for st'
    using assms(3) unfolding delete_key_io_def by (subst delete_run_io.simps) simp
  show ?thesis
    using assms(1,2) by (simp add: main_io_def t d emit_def)
qed

theorem main_io_match_refused_witness:
  "main_io (\<lambda>l. l \<noteq> FoundKeyName (join_path shell_path ''AntigravityShell'') \<and>
                l \<noteq> Attempting (join_path shell_path ''AntigravityShell''))
           (demo_state demo_shell) =
   Some ((demo_state demo_shell)\<lparr>out := [StartingScan]\<rparr>, True)"
proof -
  let ?q = "join_path shell_path ''AntigravityShell''"
  let ?pr = "\<lambda>l. l \<noteq> FoundKeyName ?q \<and> l \<noteq> Attempting ?q"
  let ?st = "demo_state demo_shell"
  have look: "lookup_key (reg ?st HKEY_CURRENT_USER) (segments shell_path) = Some demo_shell"
    by (simp add: demo_simps)
  have "search_keys_io ?pr (reg ?st) HKEY_CURRENT_USER shell_path search_term =
          ([(HKEY_CURRENT_USER, ?q, KEY_NAME_MATCH)], [])"
    using look search_loop_io_unfold [of "reg ?st" "(HKEY_CURRENT_USER, segments shell_path)" demo_shell]
    by (simp add: search_keys_io_def OpenKey_def look demo_shell_def subkey_records_def Let_def
                  check_name_def print_prefix_def search_term_def)
  from main_io_match_refused [of ?pr, OF _ this] show ?thesis
    by (simp add: demo_state_def)
qed

end
