(* ===== verification/Integrity_Check.thy ===== *)
theory Integrity_Check
  imports Prelude
begin

text \<open>
  The repository integrity checker \<open>src/scripts/integrity_check.py\<close>. The working
  directory is a tree of \<open>fs_node\<close>s; a directory lists its entries in the order
  \<open>os.scandir\<close> returns them, and a file's content is \<open>None\<close> when it is not valid
  UTF-8 (reading it raises). The shell that runs \<open>node --check\<close> is a parameter: a
  function from the command string to what \<open>subprocess.run\<close> returns or raises. The
  result of a run is the printed lines and the process exit status. \<open>ic_main\<close> prints on
  a console that accepts every line; \<open>ic_main_io\<close> takes the console as a parameter and
  models the prints that raise.
\<close>

section \<open>Data\<close>

datatype fs_node =
    File "string option"
  | Dir "(string \<times> fs_node) list"
  | Unlistable

text \<open>What \<open>subprocess.run(command, shell=True, capture_output=True, text=True)\<close>
  returns (return code, standard output, standard error) or raises.\<close>

datatype proc_result = Completed int string string | Raised string

datatype ic_line =
    Header
  | Running string
  | CheckOk string
  | CheckFailed string
  | ProcOutput string
  | CheckError string string
  | FixmeWarning string
  | AllPassed
  | CheckFAILED

datatype ic_outcome = SysExit int | Uncaught

text \<open>The exit status the interpreter reports: \<open>sys.exit(n)\<close>, or 1 after an
  uncaught exception.\<close>

fun exit_status :: "ic_outcome \<Rightarrow> int" where
  "exit_status (SysExit n) = n"
| "exit_status Uncaught = 1"

section \<open>\<open>os.walk(".")\<close> with \<open>node_modules\<close> pruned\<close>

text \<open>\<open>os.path.join(root, name)\<close> with the platform's separator.\<close>

definition py_join :: "char \<Rightarrow> string \<Rightarrow> string \<Rightarrow> string" where
  "py_join sep root name = root @ sep # name"

fun is_dir :: "fs_node \<Rightarrow> bool" where
  "is_dir (Dir es) = True"
| "is_dir Unlistable = True"
| "is_dir (File c) = False"

text \<open>\<open>if "node_modules" in dirs: dirs.remove("node_modules")\<close>: the first
  subdirectory of that name is dropped from the walk.\<close>

fun remove_dir :: "string \<Rightarrow> (string \<times> fs_node) list \<Rightarrow> (string \<times> fs_node) list" where
  "remove_dir n [] = []"
| "remove_dir n ((m, x) # es) = (if m = n then es else (m, x) # remove_dir n es)"

text \<open>One level of the top-down walk (lines 29--33): the \<open>.js\<close> files of the
  directory in listing order, then the walk of each remaining subdirectory. A directory
  that cannot be listed is skipped by \<open>os.walk\<close>.\<close>

function walk_js :: "char \<Rightarrow> string \<Rightarrow> fs_node \<Rightarrow> string list" where
  "walk_js sep root (File c) = []"
| "walk_js sep root Unlistable = []"
| "walk_js sep root (Dir es) =
     map (\<lambda>(f, x). py_join sep root f) (filter (\<lambda>(f, x). \<not> is_dir x \<and> endswith f ''.js'') es) @
     concat (map (\<lambda>(d, x). walk_js sep (py_join sep root d) x)
               (remove_dir ''node_modules'' (filter (\<lambda>(d, x). is_dir x) es)))"
  by pat_completeness auto

termination
proof (relation "measure (\<lambda>(sep, root, x). size x)", goal_cases)
  case 1
  show ?case by simp
next
  case (2 sep root es e d x)
  have sub: "set (remove_dir n ys) \<subseteq> set ys" for n ys
    by (induction n ys rule: remove_dir.induct) auto
  from 2 have "(d, x) \<in> set (remove_dir ''node_modules'' (filter (\<lambda>(d, y). is_dir y) es))"
    by simp
  with sub have "(d, x) \<in> set (filter (\<lambda>(d, y). is_dir y) es)" by blast
  then have "(d, x) \<in> set es" by simp
  then have "size x < size (Dir es)"
    by (induction es) auto
  then show ?case by simp
qed

section \<open>\<open>run_check\<close> and \<open>main\<close>\<close>

definition node_cmd :: "string \<Rightarrow> string" where
  "node_cmd js = ''node --check '' @ js"

text \<open>\<open>run_check(name, command)\<close> (lines 6--20): its lines and its result.\<close>

definition run_check :: "(string \<Rightarrow> proc_result) \<Rightarrow> string \<Rightarrow> string \<Rightarrow> ic_line list \<times> bool" where
  "run_check shell name command =
     (case shell command of
        Completed rc so se \<Rightarrow>
          if rc = 0 then ([Running name, CheckOk name], True)
          else ([Running name, CheckFailed name, ProcOutput so, ProcOutput se], False)
      | Raised e \<Rightarrow> ([Running name, CheckError name e], False))"

text \<open>The syntax-check loop (lines 35--37): every file is checked, and \<open>success\<close>
  is cleared by any failure.\<close>

fun syntax_checks :: "(string \<Rightarrow> proc_result) \<Rightarrow> string list \<Rightarrow> ic_line list \<times> bool" where
  "syntax_checks shell [] = ([], True)"
| "syntax_checks shell (js # jss) =
     (let (l, ok) = run_check shell (''Syntax: '' @ js) (node_cmd js);
          (ls, oks) = syntax_checks shell jss
      in (l @ ls, ok \<and> oks))"

text \<open>The marker scan (lines 43--48): reading a file that is not UTF-8 raises, which
  nothing catches. The result is the lines printed and whether the loop finished.\<close>

fun fixme_scan :: "(string \<Rightarrow> string option) \<Rightarrow> string list \<Rightarrow> ic_line list \<times> bool" where
  "fixme_scan content [] = ([], True)"
| "fixme_scan content (js # jss) =
     (case content js of
        None \<Rightarrow> ([], False)
      | Some text \<Rightarrow>
          (let (ls, finished) = fixme_scan content jss
           in ((if contains ''FIXME'' text then [FixmeWarning js] else []) @ ls, finished)))"

text \<open>The contents of the files the walk found, by path.\<close>

fun file_contents :: "char \<Rightarrow> string \<Rightarrow> fs_node \<Rightarrow> (string \<times> string option) list" where
  "file_contents sep root (File c) = []"
| "file_contents sep root Unlistable = []"
| "file_contents sep root (Dir es) =
     concat (map (\<lambda>(n, x). case x of File c \<Rightarrow> [(py_join sep root n, c)]
                                 | _ \<Rightarrow> file_contents sep (py_join sep root n) x) es)"

definition read_file :: "char \<Rightarrow> fs_node \<Rightarrow> string \<Rightarrow> string option" where
  "read_file sep cwd js = (case map_of (file_contents sep ''.'' cwd) js of None \<Rightarrow> None | Some c \<Rightarrow> c)"

text \<open>\<open>main()\<close> (lines 22--55).\<close>

definition ic_main :: "char \<Rightarrow> fs_node \<Rightarrow> (string \<Rightarrow> proc_result) \<Rightarrow> ic_line list \<times> ic_outcome" where
  "ic_main sep cwd shell =
     (let js_files = walk_js sep ''.'' cwd;
          (checks, success) = syntax_checks shell js_files;
          (warns, finished) = fixme_scan (read_file sep cwd) js_files
      in if \<not> finished then (Header # checks @ warns, Uncaught)
         else if success then (Header # checks @ warns @ [AllPassed], SysExit 0)
         else (Header # checks @ warns @ [CheckFAILED], SysExit 1))"

section \<open>Printing on a console\<close>

text \<open>
  \<open>print\<close> raises \<open>UnicodeEncodeError\<close> when the console's encoding cannot represent
  the line; \<open>pr\<close> says which lines the console accepts. In \<open>run_check\<close> the first print
  (line 7) is outside the \<open>try\<close> and the handler's print (line 19) is unprotected, so a
  failure there leaves the function; a failing print inside the \<open>try\<close> (lines 11 and
  14--16) goes to the handler, after the lines printed before it. \<open>encode_error\<close> is the
  text of that exception. \<open>None\<close> as a result means that an exception escaped.
\<close>

definition encode_error :: string where
  "encode_error = ''UnicodeEncodeError''"

definition run_check_io :: "(ic_line \<Rightarrow> bool) \<Rightarrow> (string \<Rightarrow> proc_result) \<Rightarrow> string \<Rightarrow> string \<Rightarrow>
                             ic_line list \<times> bool option" where
  "run_check_io pr shell name command =
     (if \<not> pr (Running name) then ([], None)
      else
        (let handler = (\<lambda>e. if pr (CheckError name e) then ([CheckError name e], Some False) else ([], None));
             (ls, r) =
               (case shell command of
                  Completed rc so se \<Rightarrow>
                    (let body = (if rc = 0 then [CheckOk name] else [CheckFailed name, ProcOutput so, ProcOutput se])
                     in if list_all pr body then (body, Some (rc = 0))
                        else (case handler encode_error of (hl, hr) \<Rightarrow> (takeWhile pr body @ hl, hr)))
                | Raised e \<Rightarrow> handler e)
         in (Running name # ls, r)))"

fun syntax_checks_io :: "(ic_line \<Rightarrow> bool) \<Rightarrow> (string \<Rightarrow> proc_result) \<Rightarrow> string list \<Rightarrow>
                         ic_line list \<times> bool option" where
  "syntax_checks_io pr shell [] = ([], Some True)"
| "syntax_checks_io pr shell (js # jss) =
     (case run_check_io pr shell (''Syntax: '' @ js) (node_cmd js) of
        (l, None) \<Rightarrow> (l, None)
      | (l, Some ok) \<Rightarrow>
          (case syntax_checks_io pr shell jss of
             (ls, None) \<Rightarrow> (l @ ls, None)
           | (ls, Some oks) \<Rightarrow> (l @ ls, Some (ok \<and> oks))))"

fun fixme_scan_io :: "(ic_line \<Rightarrow> bool) \<Rightarrow> (string \<Rightarrow> string option) \<Rightarrow> string list \<Rightarrow> ic_line list \<times> bool" where
  "fixme_scan_io pr content [] = ([], True)"
| "fixme_scan_io pr content (js # jss) =
     (case content js of
        None \<Rightarrow> ([], False)
      | Some text \<Rightarrow>
          if contains ''FIXME'' text \<and> \<not> pr (FixmeWarning js) then ([], False)
          else (let (ls, finished) = fixme_scan_io pr content jss
                in ((if contains ''FIXME'' text then [FixmeWarning js] else []) @ ls, finished)))"

text \<open>\<open>main()\<close> on the console \<open>pr\<close>: any escaping exception ends the run uncaught.\<close>

definition ic_main_io :: "(ic_line \<Rightarrow> bool) \<Rightarrow> char \<Rightarrow> fs_node \<Rightarrow> (string \<Rightarrow> proc_result) \<Rightarrow>
                           ic_line list \<times> ic_outcome" where
  "ic_main_io pr sep cwd shell =
     (if \<not> pr Header then ([], Uncaught)
      else
        (let js_files = walk_js sep ''.'' cwd
         in case syntax_checks_io pr shell js_files of
              (checks, None) \<Rightarrow> (Header # checks, Uncaught)
            | (checks, Some success) \<Rightarrow>
                (case fixme_scan_io pr (read_file sep cwd) js_files of
                   (warns, False) \<Rightarrow> (Header # checks @ warns, Uncaught)
                 | (warns, True) \<Rightarrow>
                     (let res = (if success then AllPassed else CheckFAILED)
                      in if pr res then (Header # checks @ warns @ [res], SysExit (if success then 0 else 1))
                         else (Header # checks @ warns, Uncaught)))))"

section \<open>Specification of the walk\<close>

text \<open>All files of a tree as name paths, in the order of the top-down walk: the files of a
  directory, then the files below each subdirectory. A path is wanted when its last name
  ends in \<open>.js\<close> and none of the directories on the way is \<open>node_modules\<close>.\<close>

function tree_files :: "fs_node \<Rightarrow> string list list" where
  "tree_files (File c) = []"
| "tree_files Unlistable = []"
| "tree_files (Dir es) =
     map (\<lambda>(f, x). [f]) (filter (\<lambda>(f, x). \<not> is_dir x) es) @
     concat (map (\<lambda>(d, x). map (Cons d) (tree_files x)) (filter (\<lambda>(d, x). is_dir x) es))"
  by pat_completeness auto

termination
proof (relation "measure size", goal_cases)
  case 1
  show ?case by simp
next
  case (2 es e d x)
  then have "(d, x) \<in> set es" by simp
  then have "size x < size (Dir es)"
    by (induction es) auto
  then show ?case by simp
qed

fun names_distinct :: "fs_node \<Rightarrow> bool" where
  "names_distinct (File c) = True"
| "names_distinct Unlistable = True"
| "names_distinct (Dir es) = (distinct (map fst es) \<and> (\<forall>(n, x) \<in> set es. names_distinct x))"

definition js_wanted :: "string list \<Rightarrow> bool" where
  "js_wanted p = (endswith (last p) ''.js'' \<and> ''node_modules'' \<notin> set (butlast p))"

definition js_spec :: "fs_node \<Rightarrow> string list list" where
  "js_spec x = filter js_wanted (tree_files x)"

definition render :: "char \<Rightarrow> string \<Rightarrow> string list \<Rightarrow> string" where
  "render sep root p = foldl (py_join sep) root p"

definition check_passes :: "(string \<Rightarrow> proc_result) \<Rightarrow> string \<Rightarrow> bool" where
  "check_passes shell js = (case shell (node_cmd js) of Completed rc so se \<Rightarrow> rc = 0 | Raised e \<Rightarrow> False)"

section \<open>Environment and observations\<close>

text \<open>\<open>shell=True\<close> hands the command to \<open>/bin/sh\<close>. \<open>sh_special\<close> holds for the characters
  that give a word a meaning beyond its text: the control and redirection operators
  \<open>| & ; < > ( )\<close>, the quotes and the backslash, the expansion characters \<open>$\<close> and
  backquote, the glob characters \<open>* ? [\<close>, and \<open># ~ { } !\<close>, which start a comment, a tilde
  expansion or a reserved word. On a command without any of them the shell does only field
  splitting at blanks (IFS space, tab, newline), which is \<open>sh_fields\<close>; on other commands it
  is not a model of the shell. \<open>is_running\<close> and \<open>is_warning\<close> select printed lines.\<close>

fun is_running :: "ic_line \<Rightarrow> bool" where
  "is_running (Running n) = True"
| "is_running l = False"

fun is_warning :: "ic_line \<Rightarrow> bool" where
  "is_warning (FixmeWarning n) = True"
| "is_warning l = False"

definition sh_special :: "char \<Rightarrow> bool" where
  "sh_special c = (c \<in> set ''|&;<>()$`*?[#~{}!'' \<or> c = CHR 0x5C \<or> c = CHR 0x22 \<or> c = CHR 0x27)"

definition is_blank :: "char \<Rightarrow> bool" where
  "is_blank c = (c = CHR '' '' \<or> c = CHR 0x09 \<or> c = CHR 0x0A)"

fun sh_fields :: "string \<Rightarrow> string \<Rightarrow> string list" where
  "sh_fields w [] = (if w = [] then [] else [rev w])"
| "sh_fields w (c # cs) =
     (if is_blank c then (if w = [] then sh_fields [] cs else rev w # sh_fields [] cs)
      else sh_fields (c # w) cs)"

definition demo_tree :: fs_node where
  "demo_tree = Dir
     [(''app.js'', File (Some ''const x = 1;'')),
      (''README.md'', File (Some ''FIXME: docs'')),
      (''node_modules'', Dir [(''lib.js'', File (Some ''FIXME''))]),
      (''src'', Dir [(''server.js'', File (Some ''// FIXME port'')), (''notes.txt'', File None)])]"

section \<open>The walk\<close>

lemma remove_dir_distinct:
  "distinct (map fst ys) \<Longrightarrow> remove_dir n ys = filter (\<lambda>(m, x). m \<noteq> n) ys"
proof (induction n ys rule: remove_dir.induct)
  case (2 n m x es)
  have "n \<notin> fst ` set es \<Longrightarrow> filter (\<lambda>(m, x). m \<noteq> n) es = es"
    by (induction es) auto
  with 2 show ?case by auto
qed simp

lemma tree_files_not_Nil: "p \<in> set (tree_files x) \<Longrightarrow> p \<noteq> []"
  by (induction x arbitrary: p rule: tree_files.induct) auto

lemma js_wanted_Cons:
  "p \<noteq> [] \<Longrightarrow> js_wanted (d # p) = (d \<noteq> ''node_modules'' \<and> js_wanted p)"
  by (auto simp: js_wanted_def)

lemma filter_js_wanted_Cons:
  "filter js_wanted (map (Cons d) (tree_files x)) =
     (if d = ''node_modules'' then [] else map (Cons d) (filter js_wanted (tree_files x)))"
proof -
  have "filter js_wanted (map (Cons d) (tree_files x)) =
        map (Cons d) (filter (\<lambda>p. d \<noteq> ''node_modules'' \<and> js_wanted p) (tree_files x))"
    by (auto simp: filter_map o_def js_wanted_Cons tree_files_not_Nil cong: filter_cong)
  then show ?thesis by simp
qed

lemma render_Cons [simp]: "render sep root (d # p) = render sep (py_join sep root d) p"
  by (simp add: render_def)

lemma render_Nil [simp]: "render sep root [] = root"
  by (simp add: render_def)

lemma names_distinct_filter_dirs:
  "distinct (map fst es) \<Longrightarrow> distinct (map fst (filter P es))"
  by (induction es) auto

text \<open>
  C7. On a tree whose directories list distinct names, the walk with pruning returns
  exactly the wanted paths of the specification, in walk order, rendered with
  \<open>os.path.join\<close>: every \<open>.js\<close> file outside \<open>node_modules\<close> is checked and nothing else.
\<close>

theorem walk_js_refines_spec:
  "names_distinct x \<Longrightarrow> walk_js sep root x = map (render sep root) (js_spec x)"
proof (induction sep root x rule: walk_js.induct)
  case (1 sep root c)
  then show ?case by (simp add: js_spec_def)
next
  case (2 sep root)
  then show ?case by (simp add: js_spec_def)
next
  case (3 sep root es)
  let ?dirs = "filter (\<lambda>(d, x). is_dir x) es"
  from "3.prems" have dist: "distinct (map fst ?dirs)" by (simp add: names_distinct_filter_dirs)
  have rm: "remove_dir ''node_modules'' ?dirs = filter (\<lambda>(m, x). m \<noteq> ''node_modules'') ?dirs"
    using dist by (rule remove_dir_distinct)
  have rec: "walk_js sep (py_join sep root d) x = map (render sep (py_join sep root d)) (js_spec x)"
    if "(d, x) \<in> set (remove_dir ''node_modules'' ?dirs)" for d x
  proof -
    from that have "(d, x) \<in> set es" unfolding rm by simp
    with "3.prems" have "names_distinct x" by auto
    with that "3.IH" show ?thesis by blast
  qed
  have files: "map (render sep root) (filter js_wanted (map (\<lambda>(f, x). [f]) (filter (\<lambda>(f, x). \<not> is_dir x) es))) =
        map (\<lambda>(f, x). py_join sep root f) (filter (\<lambda>(f, x). \<not> is_dir x \<and> endswith f ''.js'') es)"
    by (induction es) (auto simp: js_wanted_def)
  have dirs: "filter js_wanted (concat (map (\<lambda>(d, x). map (Cons d) (tree_files x)) ?dirs)) =
        concat (map (\<lambda>(d, x). filter js_wanted (map (Cons d) (tree_files x))) ?dirs)"
    by (simp add: filter_concat o_def case_prod_unfold)
  have "concat (map (\<lambda>(d, x). walk_js sep (py_join sep root d) x) (remove_dir ''node_modules'' ?dirs)) =
        concat (map (\<lambda>(d, x). map (render sep (py_join sep root d)) (js_spec x)) (remove_dir ''node_modules'' ?dirs))"
    using rec by (auto intro!: arg_cong [where f = concat] map_cong)
  also have "\<dots> = map (render sep root)
        (concat (map (\<lambda>(d, x). filter js_wanted (map (Cons d) (tree_files x))) ?dirs))"
    unfolding rm by (induction es) (auto simp: filter_js_wanted_Cons js_spec_def)
  finally have "concat (map (\<lambda>(d, x). walk_js sep (py_join sep root d) x) (remove_dir ''node_modules'' ?dirs)) =
        map (render sep root) (filter js_wanted (concat (map (\<lambda>(d, x). map (Cons d) (tree_files x)) ?dirs)))"
    unfolding dirs .
  then show ?case
    by (simp only: walk_js.simps tree_files.simps js_spec_def filter_append map_append files)
qed


theorem walk_js_refines_spec_witness:
  "names_distinct demo_tree \<and>
   walk_js CHR ''/'' ''.'' demo_tree = map (render CHR ''/'' ''.'') (js_spec demo_tree)"
  using walk_js_refines_spec [of demo_tree "CHR ''/''" "''.''"]
  by (simp add: demo_tree_def)

section \<open>The run\<close>

lemma run_check_Running: "filter is_running (fst (run_check shell n c)) = [Running n]"
  by (simp add: run_check_def split: proc_result.splits)

lemma run_check_no_warning: "filter is_warning (fst (run_check shell n c)) = []"
  by (simp add: run_check_def split: proc_result.splits)

lemma syntax_checks_success: "snd (syntax_checks shell jss) = (\<forall>js \<in> set jss. check_passes shell js)"
  by (induction jss) (auto simp: run_check_def check_passes_def split: prod.splits proc_result.splits)

lemma syntax_checks_Running:
  "filter is_running (fst (syntax_checks shell jss)) = map (\<lambda>js. Running (''Syntax: '' @ js)) jss"
  by (induction jss) (simp_all add: Let_def case_prod_unfold run_check_Running)

lemma syntax_checks_no_warning: "filter is_warning (fst (syntax_checks shell jss)) = []"
  by (induction jss) (simp_all add: Let_def case_prod_unfold run_check_no_warning)

lemma fixme_scan_finished: "snd (fixme_scan content jss) = (\<forall>js \<in> set jss. content js \<noteq> None)"
  by (induction jss) (auto split: option.splits prod.splits)

lemma fixme_scan_warnings:
  "fst (fixme_scan content jss) =
     map FixmeWarning (filter (\<lambda>js. contains ''FIXME'' (the (content js)))
                        (takeWhile (\<lambda>js. content js \<noteq> None) jss))"
  by (induction jss) (auto split: option.splits prod.splits)

lemma fixme_scan_no_running: "filter is_running (fst (fixme_scan content jss)) = []"
  by (simp add: fixme_scan_warnings filter_map o_def)

lemma ic_main_lines:
  "fst (ic_main sep cwd shell) =
     Header # fst (syntax_checks shell (walk_js sep ''.'' cwd)) @ fst (fixme_scan (read_file sep cwd) (walk_js sep ''.'' cwd)) @
     (if \<not> snd (fixme_scan (read_file sep cwd) (walk_js sep ''.'' cwd)) then []
      else if snd (syntax_checks shell (walk_js sep ''.'' cwd)) then [AllPassed] else [CheckFAILED])"
  by (simp add: ic_main_def Let_def split: prod.splits)

text \<open>
  C8. On a console that prints every line, the checker exits with 0 exactly when every
  \<open>node --check\<close> it runs returns 0 and every file found is valid UTF-8; otherwise with 1.
  \<open>FIXME\<close> markers never change the exit status (C24 and C25 show the other consoles).
\<close>

theorem ic_exit_status:
  "exit_status (snd (ic_main sep cwd shell)) =
     (if \<forall>js \<in> set (walk_js sep ''.'' cwd). check_passes shell js \<and> read_file sep cwd js \<noteq> None then 0 else 1)"
  using syntax_checks_success [of shell "walk_js sep ''.'' cwd"]
        fixme_scan_finished [of "read_file sep cwd" "walk_js sep ''.'' cwd"]
  by (auto simp: ic_main_def Let_def split: prod.splits)

theorem ic_exit_status_witness:
  "exit_status (snd (ic_main CHR ''/'' demo_tree (\<lambda>c. Completed 0 [] []))) = 0"
  using ic_exit_status [of "CHR ''/''" demo_tree "\<lambda>c. Completed 0 [] []"]
  by (simp add: demo_tree_def check_passes_def read_file_def py_join_def endswith_def suffix_to_prefix)

text \<open>
  C9. Every file found is syntax-checked exactly once and in walk order: a failing check
  does not stop the loop, and the marker scan runs no further checks.
\<close>

theorem ic_main_checks_every_file:
  "filter is_running (fst (ic_main sep cwd shell)) = map (\<lambda>js. Running (''Syntax: '' @ js)) (walk_js sep ''.'' cwd)"
  by (simp add: ic_main_lines syntax_checks_Running fixme_scan_no_running)

text \<open>
  C10. The \<open>FIXME\<close> warnings name the files containing the marker, in walk order, up to
  the first file that is not valid UTF-8: reading it raises and ends the run.
\<close>

theorem ic_main_warnings:
  "filter is_warning (fst (ic_main sep cwd shell)) =
     map FixmeWarning (filter (\<lambda>js. contains ''FIXME'' (the (read_file sep cwd js)))
                        (takeWhile (\<lambda>js. read_file sep cwd js \<noteq> None) (walk_js sep ''.'' cwd)))"
  by (simp add: ic_main_lines syntax_checks_no_warning fixme_scan_warnings filter_map o_def)

section \<open>The command string\<close>

lemma sh_fields_no_blank:
  "\<forall>c \<in> set s. \<not> is_blank c \<Longrightarrow> sh_fields w s = (if w = [] \<and> s = [] then [] else [rev w @ s])"
  by (induction w s rule: sh_fields.induct) simp_all

lemma sh_fields_words:
  "\<forall>c \<in> set w. \<not> is_blank c \<Longrightarrow> f \<in> set (sh_fields w s) \<Longrightarrow> \<forall>c \<in> set f. \<not> is_blank c"
proof (induction w s rule: sh_fields.induct)
  case (1 w)
  then have "f = rev w" by (simp split: if_splits)
  with "1.prems"(1) show ?case by simp
next
  case (2 w c cs)
  show ?case
  proof (cases "is_blank c")
    case blank: True
    show ?thesis
    proof (cases "w = []")
      case True
      with blank "2.prems"(2) have "f \<in> set (sh_fields [] cs)" by simp
      with "2.IH"(1) [OF blank True] show ?thesis by simp
    next
      case False
      with blank "2.prems"(2) have "f = rev w \<or> f \<in> set (sh_fields [] cs)" by simp
      then show ?thesis
      proof
        assume "f = rev w"
        with "2.prems"(1) show ?thesis by simp
      next
        assume "f \<in> set (sh_fields [] cs)"
        with "2.IH"(2) [OF blank False] show ?thesis by simp
      qed
    qed
  next
    case False
    from False "2.prems"(1) have "\<forall>x \<in> set (c # w). \<not> is_blank x" by simp
    moreover from False "2.prems"(2) have "f \<in> set (sh_fields (c # w) cs)" by simp
    ultimately show ?thesis by (rule "2.IH"(3) [OF False])
  qed
qed

text \<open>
  C11. For a path without shell special characters, the shell runs \<open>node --check\<close> on the
  path the walk found, as its single argument, exactly when the path is non-empty and has
  no blank: a path with a space is split, and the check reports a syntax failure for a
  file that may be correct. A path with a special character (\<open>./a;b.js\<close>) is outside the
  statement: the shell interprets it, which the findings record.
\<close>

theorem node_cmd_fields:
  assumes "\<forall>c \<in> set js. \<not> sh_special c"
  shows "sh_fields [] (node_cmd js) = [''node'', ''--check'', js] \<longleftrightarrow> js \<noteq> [] \<and> (\<forall>c \<in> set js. \<not> is_blank c)"
proof -
  have cmd: "sh_fields [] (node_cmd js) = ''node'' # ''--check'' # sh_fields [] js"
    by (simp add: node_cmd_def is_blank_def)
  show ?thesis
  proof
    assume "sh_fields [] (node_cmd js) = [''node'', ''--check'', js]"
    then have f: "sh_fields [] js = [js]" by (simp add: cmd)
    then have "js \<noteq> []" by auto
    moreover from f sh_fields_words [of "[]" js js] have "\<forall>c \<in> set js. \<not> is_blank c" by simp
    ultimately show "js \<noteq> [] \<and> (\<forall>c \<in> set js. \<not> is_blank c)" ..
  next
    assume "js \<noteq> [] \<and> (\<forall>c \<in> set js. \<not> is_blank c)"
    then show "sh_fields [] (node_cmd js) = [''node'', ''--check'', js]"
      by (simp add: cmd sh_fields_no_blank)
  qed
qed

theorem node_cmd_fields_witness:
  "sh_fields [] (node_cmd ''./my app/a.js'') \<noteq> [''node'', ''--check'', ''./my app/a.js'']"
  using node_cmd_fields [of "''./my app/a.js''"] by (simp add: is_blank_def sh_special_def)

section \<open>Printing on a console\<close>

lemma run_check_io_prints:
  "\<forall>l. l \<noteq> AllPassed \<longrightarrow> pr l \<Longrightarrow>
   run_check_io pr shell n c = (fst (run_check shell n c), Some (snd (run_check shell n c)))"
  by (simp add: run_check_io_def run_check_def split: proc_result.split)

lemma syntax_checks_io_prints:
  "\<forall>l. l \<noteq> AllPassed \<longrightarrow> pr l \<Longrightarrow>
   syntax_checks_io pr shell jss = (fst (syntax_checks shell jss), Some (snd (syntax_checks shell jss)))"
  by (induction jss) (simp_all add: run_check_io_prints split: prod.split)

lemma fixme_scan_io_prints:
  "\<forall>l. l \<noteq> AllPassed \<longrightarrow> pr l \<Longrightarrow> fixme_scan_io pr content jss = fixme_scan content jss"
  by (induction jss) (simp_all split: option.split prod.split)

text \<open>
  C24. On a console that accepts every line but the closing success line (line 51),
  whose rocket emoji it cannot encode, a run that would pass crashes
  on that last print: it prints everything else and ends with an uncaught exception,
  exit status 1. Every other run is unchanged.
\<close>

theorem ic_main_io_pass_crashes:
  assumes "\<forall>l. l \<noteq> AllPassed \<longrightarrow> pr l" and "\<not> pr AllPassed"
  shows "ic_main_io pr sep cwd shell =
           (if snd (ic_main sep cwd shell) = SysExit 0
            then (butlast (fst (ic_main sep cwd shell)), Uncaught) else ic_main sep cwd shell)"
  using assms
  by (simp add: ic_main_io_def ic_main_def Let_def syntax_checks_io_prints fixme_scan_io_prints butlast_append
           split: prod.split)

theorem ic_main_io_pass_crashes_witness:
  "ic_main_io (\<lambda>l. l \<noteq> AllPassed) CHR ''/'' demo_tree (\<lambda>c. Completed 0 [] []) =
     (butlast (fst (ic_main CHR ''/'' demo_tree (\<lambda>c. Completed 0 [] []))), Uncaught)"
  using ic_main_io_pass_crashes [of "\<lambda>l. l \<noteq> AllPassed" "CHR ''/''" demo_tree "\<lambda>c. Completed 0 [] []"]
  by (simp add: ic_main_def Let_def demo_tree_def read_file_def py_join_def endswith_def suffix_to_prefix
                run_check_def)

text \<open>
  C25. On any console that cannot print the closing success line, the checker never
  exits with status 0, whatever the tree and the checks.
\<close>

theorem ic_never_passes_unprintable:
  "\<not> pr AllPassed \<Longrightarrow> exit_status (snd (ic_main_io pr sep cwd shell)) = 1"
  by (auto simp: ic_main_io_def Let_def split: prod.split option.split bool.split)

theorem ic_never_passes_unprintable_witness:
  "exit_status (snd (ic_main_io (\<lambda>l. l \<noteq> AllPassed) CHR ''/'' demo_tree (\<lambda>c. Completed 0 [] []))) = 1"
  using ic_never_passes_unprintable [of "\<lambda>l. l \<noteq> AllPassed"] by simp

end
