(* ===== verification/Debug_CDP.thy ===== *)
theory Debug_CDP
  imports Prelude
begin

text \<open>
  The debugger probe \<open>src/archive/debug_cdp.py\<close>. The URL is built as line 6 builds
  it (\<open>cdp_url\<close>); the HTTP request on it and \<open>json.loads\<close> are one parameter
  \<open>fetch\<close>: for a URL, the decoded JSON document or the exception raised on the way.
  The analysis is modelled with the Python semantics it relies on: \<open>dict.get\<close> exists
  only on objects, \<open>in\<close> is a substring test on strings, a membership test on lists and
  a key test on objects and raises on other values, iterating an object yields its keys,
  \<open>next\<close> over a generator evaluates elements only up to the first match, and a decoded
  object keeps the last value of a repeated key. \<open>check\<close> and \<open>probe_main\<close> print on a
  console that accepts every line; \<open>check_io\<close> and \<open>probe_main_io\<close> take the console
  as a parameter and model the prints that raise.
\<close>

section \<open>Data\<close>

datatype json =
    JNull
  | JBool bool
  | JNum int
  | JStr string
  | JArr "json list"
  | JObj "(string \<times> json) list"

datatype py_error = TypeError | AttributeError | FetchError string | UnicodeEncodeError

datatype cdp_line =
    PortHeader int
  | Dump json
  | FoundWorkbench int
  | FoundPage int "json option"
  | NoPage int
  | CheckError int py_error

section \<open>Python operations on decoded JSON\<close>

text \<open>\<open>t.get(k)\<close>: a decoded object keeps the last value of a repeated key.\<close>

fun py_get :: "json \<Rightarrow> string \<Rightarrow> py_error + json option" where
  "py_get (JObj kvs) k = Inr (map_of (rev kvs) k)"
| "py_get t k = Inl AttributeError"

text \<open>\<open>s in v\<close> for a string \<open>s\<close>.\<close>

fun py_in :: "string \<Rightarrow> json \<Rightarrow> py_error + bool" where
  "py_in s (JStr x) = Inr (contains s x)"
| "py_in s (JArr xs) = Inr (JStr s \<in> set xs)"
| "py_in s (JObj kvs) = Inr (s \<in> fst ` set kvs)"
| "py_in s v = Inl TypeError"

text \<open>\<open>for t in v\<close>: the elements of a list, the keys of an object in order of first
  appearance, the characters of a string.\<close>

fun py_iter :: "json \<Rightarrow> py_error + json list" where
  "py_iter (JArr xs) = Inr xs"
| "py_iter (JObj kvs) = Inr (map JStr (rev (remdups (rev (map fst kvs)))))"
| "py_iter (JStr s) = Inr (map (\<lambda>c. JStr [c]) s)"
| "py_iter v = Inl TypeError"

text \<open>Python truthiness, for \<open>if workbench:\<close> and \<open>elif page:\<close>.\<close>

fun truthy :: "json \<Rightarrow> bool" where
  "truthy JNull = False"
| "truthy (JBool b) = b"
| "truthy (JNum n) = (n \<noteq> 0)"
| "truthy (JStr s) = (s \<noteq> [])"
| "truthy (JArr xs) = (xs \<noteq> [])"
| "truthy (JObj kvs) = (kvs \<noteq> [])"

text \<open>\<open>next((t for t in ts if p(t)), None)\<close>: the first element satisfying \<open>p\<close>; an
  exception raised by \<open>p\<close> before that element propagates.\<close>

fun next_match :: "(json \<Rightarrow> py_error + bool) \<Rightarrow> json list \<Rightarrow> py_error + json option" where
  "next_match p [] = Inr None"
| "next_match p (t # ts) =
     (case p t of
        Inl e \<Rightarrow> Inl e
      | Inr True \<Rightarrow> Inr (Some t)
      | Inr False \<Rightarrow> next_match p ts)"

section \<open>\<open>check(port)\<close>\<close>

text \<open>\<open>'workbench.html' in t.get('url', '')\<close> (line 13).\<close>

definition is_workbench :: "json \<Rightarrow> py_error + bool" where
  "is_workbench t =
     (case py_get t ''url'' of
        Inl e \<Rightarrow> Inl e
      | Inr u \<Rightarrow> py_in ''workbench.html'' (case u of None \<Rightarrow> JStr [] | Some v \<Rightarrow> v))"

text \<open>\<open>t.get('type') == 'page'\<close> (line 14).\<close>

definition is_page :: "json \<Rightarrow> py_error + bool" where
  "is_page t = (case py_get t ''type'' of Inl e \<Rightarrow> Inl e | Inr ty \<Rightarrow> Inr (ty = Some (JStr ''page'')))"

fun opt_truthy :: "json option \<Rightarrow> bool" where
  "opt_truthy None = False"
| "opt_truthy (Some t) = truthy t"

text \<open>The analysis (lines 12--21): both generators are built and consumed before the
  verdict, so the page scan runs even when a workbench was found.\<close>

definition analyse :: "int \<Rightarrow> json \<Rightarrow> py_error + cdp_line" where
  "analyse port data =
     (case py_iter data of
        Inl e \<Rightarrow> Inl e
      | Inr ts \<Rightarrow>
          (case next_match is_workbench ts of
             Inl e \<Rightarrow> Inl e
           | Inr workbench \<Rightarrow>
               (case next_match is_page ts of
                  Inl e \<Rightarrow> Inl e
                | Inr page \<Rightarrow>
                    if opt_truthy workbench then Inr (FoundWorkbench port)
                    else if opt_truthy page then
                      (case page of
                         Some p \<Rightarrow> (case py_get p ''title'' of
                                      Inl e \<Rightarrow> Inl e
                                    | Inr title \<Rightarrow> Inr (FoundPage port title))
                       | None \<Rightarrow> Inr (NoPage port))
                    else Inr (NoPage port))))"

text \<open>\<open>f"{port}"\<close>: Python's decimal rendering of an \<open>int\<close>, digits by repeated division
  by 10 and a minus sign for negative numbers.\<close>

fun digits_nat :: "nat \<Rightarrow> string" where
  "digits_nat n = (if n < 10 then [char_of (48 + n)] else digits_nat (n div 10) @ [char_of (48 + n mod 10)])"

declare digits_nat.simps [simp del]

definition py_int_str :: "int \<Rightarrow> string" where
  "py_int_str i = (if i < 0 then CHR ''-'' # digits_nat (nat (- i)) else digits_nat (nat i))"

text \<open>The URL of line 6, which \<open>urlopen\<close> requests.\<close>

definition cdp_url :: "int \<Rightarrow> string" where
  "cdp_url port = ''http://127.0.0.1:'' @ py_int_str port @ ''/json/list''"

text \<open>\<open>check(port)\<close> (lines 4--24): every exception is caught and printed.\<close>

definition check :: "(string \<Rightarrow> py_error + json) \<Rightarrow> int \<Rightarrow> cdp_line list" where
  "check fetch port =
     (case fetch (cdp_url port) of
        Inl e \<Rightarrow> [CheckError port e]
      | Inr data \<Rightarrow>
          PortHeader port # Dump data #
          (case analyse port data of Inl e \<Rightarrow> [CheckError port e] | Inr l \<Rightarrow> [l]))"

text \<open>The module body (lines 26--27).\<close>

definition probe_main :: "(string \<Rightarrow> py_error + json) \<Rightarrow> cdp_line list" where
  "probe_main fetch = check fetch 9000 @ check fetch 9001"

section \<open>Printing on a console\<close>

text \<open>
  \<open>print\<close> raises \<open>UnicodeEncodeError\<close> when the console's encoding cannot represent
  the line (a legacy code page, or output redirected under such a locale); \<open>pr\<close> says
  which lines the console accepts. All prints of \<open>check\<close> are inside its \<open>try\<close>
  (lines 9, 10, 17, 19 and 21), so a failed print jumps to the handler, whose own print
  (line 24) is not protected: when it fails too, the exception leaves \<open>check\<close> and ends
  the module body. \<open>try_body\<close> is lines 6--21: what it printed and the exception it
  raised, if any; \<open>check_io\<close> adds the handler and says whether an exception escaped.
\<close>

definition try_body :: "(cdp_line \<Rightarrow> bool) \<Rightarrow> (string \<Rightarrow> py_error + json) \<Rightarrow> int \<Rightarrow>
                         cdp_line list \<times> py_error option" where
  "try_body pr fetch port =
     (case fetch (cdp_url port) of
        Inl e \<Rightarrow> ([], Some e)
      | Inr data \<Rightarrow>
          if \<not> pr (PortHeader port) then ([], Some UnicodeEncodeError)
          else if \<not> pr (Dump data) then ([PortHeader port], Some UnicodeEncodeError)
          else (case analyse port data of
                  Inl e \<Rightarrow> ([PortHeader port, Dump data], Some e)
                | Inr l \<Rightarrow> if pr l then ([PortHeader port, Dump data, l], None)
                           else ([PortHeader port, Dump data], Some UnicodeEncodeError)))"

definition check_io :: "(cdp_line \<Rightarrow> bool) \<Rightarrow> (string \<Rightarrow> py_error + json) \<Rightarrow> int \<Rightarrow> cdp_line list \<times> bool" where
  "check_io pr fetch port =
     (case try_body pr fetch port of
        (ls, None) \<Rightarrow> (ls, False)
      | (ls, Some e) \<Rightarrow> if pr (CheckError port e) then (ls @ [CheckError port e], False) else (ls, True))"

text \<open>The module body: the second call runs only if the first returned.\<close>

definition probe_main_io :: "(cdp_line \<Rightarrow> bool) \<Rightarrow> (string \<Rightarrow> py_error + json) \<Rightarrow> cdp_line list \<times> bool" where
  "probe_main_io pr fetch =
     (case check_io pr fetch 9000 of
        (l1, True) \<Rightarrow> (l1, True)
      | (l1, False) \<Rightarrow> (case check_io pr fetch 9001 of (l2, x) \<Rightarrow> (l1 @ l2, x)))"

text \<open>The lines an ASCII console accepts: the port header (line 9) and the dump, which
  \<open>json.dumps\<close> escapes to ASCII by default (line 10); every verdict and error line
  starts with an emoji (lines 17, 19, 21 and 24).\<close>

fun ascii_line :: "cdp_line \<Rightarrow> bool" where
  "ascii_line (PortHeader p) = True"
| "ascii_line (Dump d) = True"
| "ascii_line l = False"

section \<open>Specification of the analysis\<close>

text \<open>A well-formed target is an object whose \<open>url\<close>, when present, is a value
  \<open>in\<close> accepts. The verdict the analysis promises on a list of such targets: a workbench
  if some target's URL names \<open>workbench.html\<close>, otherwise the first page target with its
  title, otherwise none. \<open>is_verdict\<close> and \<open>line_port\<close> read printed lines.\<close>

fun url_ok :: "json option \<Rightarrow> bool" where
  "url_ok None = True"
| "url_ok (Some (JStr s)) = True"
| "url_ok (Some (JArr xs)) = True"
| "url_ok (Some (JObj kvs)) = True"
| "url_ok (Some v) = False"

fun wf_target :: "json \<Rightarrow> bool" where
  "wf_target (JObj kvs) = url_ok (map_of (rev kvs) ''url'')"
| "wf_target t = False"

fun title_of :: "json \<Rightarrow> json option" where
  "title_of (JObj kvs) = map_of (rev kvs) ''title''"
| "title_of t = None"

definition classify_spec :: "int \<Rightarrow> json list \<Rightarrow> cdp_line" where
  "classify_spec port ts =
     (if \<exists>t \<in> set ts. is_workbench t = Inr True then FoundWorkbench port
      else case find (\<lambda>t. is_page t = Inr True) ts of
             None \<Rightarrow> NoPage port
           | Some p \<Rightarrow> FoundPage port (title_of p))"

fun is_verdict :: "cdp_line \<Rightarrow> bool" where
  "is_verdict (PortHeader p) = False"
| "is_verdict (Dump d) = False"
| "is_verdict l = True"

fun line_port :: "cdp_line \<Rightarrow> int option" where
  "line_port (PortHeader p) = Some p"
| "line_port (Dump d) = None"
| "line_port (FoundWorkbench p) = Some p"
| "line_port (FoundPage p t) = Some p"
| "line_port (NoPage p) = Some p"
| "line_port (CheckError p e) = Some p"

definition workbench_target :: json where
  "workbench_target = JObj [(''type'', JStr ''other''), (''url'', JStr ''vscode-file://vscode-app/workbench.html'')]"

section \<open>Lemmas\<close>

lemma next_match_find:
  "\<forall>t \<in> set ts. \<exists>b. p t = Inr b \<Longrightarrow> next_match p ts = Inr (find (\<lambda>t. p t = Inr True) ts)"
  by (induction ts) (auto split: sum.splits bool.splits)

lemma next_match_found: "next_match p ts = Inr (Some t) \<Longrightarrow> p t = Inr True"
  by (induction ts) (auto split: sum.splits bool.splits if_splits)

lemma py_in_url_ok: "url_ok (Some v) \<Longrightarrow> \<exists>b. py_in s v = Inr b"
  by (cases v) auto

lemma is_workbench_wf: "wf_target t \<Longrightarrow> \<exists>b. is_workbench t = Inr b"
  by (cases t rule: wf_target.cases) (auto simp: is_workbench_def py_in_url_ok split: option.splits)

lemma is_page_wf: "wf_target t \<Longrightarrow> \<exists>b. is_page t = Inr b"
  by (cases t) (auto simp: is_page_def)

lemma is_workbench_truthy: "is_workbench t = Inr True \<Longrightarrow> truthy t"
  by (cases t) (auto simp: is_workbench_def split: option.splits)

lemma is_page_truthy: "is_page t = Inr True \<Longrightarrow> truthy t"
  by (cases t) (auto simp: is_page_def)

lemma is_page_title: "is_page t = Inr True \<Longrightarrow> py_get t ''title'' = Inr (title_of t)"
  by (cases t) (auto simp: is_page_def)

lemma find_Some_truthy:
  "find (\<lambda>t. P t = Inr True) ts = Some t \<Longrightarrow> P t = Inr True"
  by (auto simp: find_Some_iff)

lemma analyse_verdict: "analyse port data = Inr l \<Longrightarrow> is_verdict l \<and> line_port l = Some port"
  by (auto simp: analyse_def split: sum.splits option.splits if_splits)

lemma check_verdict:
  "\<exists>v. filter is_verdict (check fetch port) = [v] \<and> line_port v = Some port \<and> last (check fetch port) = v"
  by (auto simp: check_def dest: analyse_verdict split: sum.splits)

lemma check_io_prints_all: "check_io (\<lambda>_. True) fetch port = (check fetch port, False)"
  by (simp add: check_io_def try_body_def check_def split: sum.split)

lemma probe_main_io_prints_all: "probe_main_io (\<lambda>_. True) fetch = (probe_main fetch, False)"
  by (simp add: probe_main_io_def probe_main_def check_io_prints_all)

lemma verdict_not_ascii: "is_verdict l \<Longrightarrow> \<not> ascii_line l"
  by (cases l) simp_all

lemma check_io_handled:
  "\<forall>e. pr (CheckError port e) \<Longrightarrow> snd (check_io pr fetch port) = False"
  by (auto simp: check_io_def split: prod.split option.split)

text \<open>
  C12. When the endpoint returns a list of well-formed targets, \<open>check\<close> prints the
  port header, the dump and exactly the verdict of \<open>classify_spec\<close>: the two lazy
  scans raise nothing and a found target is always truthy.
\<close>

theorem check_classifies:
  assumes "fetch (cdp_url port) = Inr (JArr ts)" and "\<forall>t \<in> set ts. wf_target t"
  shows "check fetch port = [PortHeader port, Dump (JArr ts), classify_spec port ts]"
proof -
  have wb: "next_match is_workbench ts = Inr (find (\<lambda>t. is_workbench t = Inr True) ts)"
    using assms(2) is_workbench_wf by (blast intro: next_match_find)
  have pg: "next_match is_page ts = Inr (find (\<lambda>t. is_page t = Inr True) ts)"
    using assms(2) is_page_wf by (blast intro: next_match_find)
  have "analyse port (JArr ts) = Inr (classify_spec port ts)"
  proof (cases "find (\<lambda>t. is_workbench t = Inr True) ts")
    case None
    then have "\<not> (\<exists>t \<in> set ts. is_workbench t = Inr True)" by (simp add: find_None_iff)
    with None wb pg show ?thesis
      by (auto simp: analyse_def classify_spec_def is_page_title
               dest: find_Some_truthy is_page_truthy split: option.splits)
  next
    case (Some t)
    then have "is_workbench t = Inr True" "t \<in> set ts" by (auto simp: find_Some_iff)
    with Some wb pg show ?thesis
      by (auto simp: analyse_def classify_spec_def dest: is_workbench_truthy)
  qed
  with assms(1) show ?thesis by (simp add: check_def)
qed

theorem check_classifies_witness:
  "(\<lambda>u. Inr (JArr [JObj [(''type'', JStr ''page''), (''title'', JStr ''Tab'')], workbench_target])) (cdp_url 9000)
     = Inr (JArr [JObj [(''type'', JStr ''page''), (''title'', JStr ''Tab'')], workbench_target]) \<and>
   wf_target (JObj [(''type'', JStr ''page''), (''title'', JStr ''Tab'')]) \<and> wf_target workbench_target \<and>
   check (\<lambda>u. Inr (JArr [JObj [(''type'', JStr ''page''), (''title'', JStr ''Tab'')], workbench_target])) 9000
     = [PortHeader 9000, Dump (JArr [JObj [(''type'', JStr ''page''), (''title'', JStr ''Tab'')], workbench_target]),
        FoundWorkbench 9000]"
proof -
  let ?ts = "[JObj [(''type'', JStr ''page''), (''title'', JStr ''Tab'')], workbench_target]"
  have wf: "\<forall>t \<in> set ?ts. wf_target t" by (simp add: workbench_target_def)
  have "classify_spec 9000 ?ts = FoundWorkbench 9000"
    by (simp add: classify_spec_def workbench_target_def is_workbench_def is_page_def)
  with check_classifies [of "\<lambda>u. Inr (JArr ?ts)" 9000 ?ts] wf show ?thesis
    by (simp add: workbench_target_def)
qed

text \<open>
  C13. A workbench target followed by a target that is not an object makes \<open>check\<close>
  report an error instead of the workbench, unless the workbench target is itself a page:
  the page scan runs after the workbench was found and calls \<open>get\<close> on the second target.
\<close>

theorem workbench_then_error:
  assumes "is_workbench wb = Inr True" and "is_page wb = Inr False" and "\<forall>kvs. t \<noteq> JObj kvs"
  shows "check (\<lambda>u. Inr (JArr (wb # t # ts))) port =
           [PortHeader port, Dump (JArr (wb # t # ts)), CheckError port AttributeError]"
  using assms by (cases t) (simp_all add: check_def analyse_def is_page_def)

theorem workbench_then_error_witness:
  "check (\<lambda>u. Inr (JArr [workbench_target, JStr ''x''])) 9001 =
     [PortHeader 9001, Dump (JArr [workbench_target, JStr ''x'']), CheckError 9001 AttributeError]"
  using workbench_then_error [of workbench_target "JStr ''x''" "[]" 9001]
  by (simp add: workbench_target_def is_workbench_def is_page_def)


text \<open>
  C14. On a console that prints every line, whatever the two endpoints return or raise,
  the probe prints exactly one verdict line per port, first for port 9000 and then for
  port 9001 (C22 shows what an ASCII console does instead).
\<close>

theorem probe_main_verdicts:
  "map line_port (filter is_verdict (probe_main fetch)) = [Some 9000, Some 9001]"
proof -
  obtain v w where "filter is_verdict (check fetch 9000) = [v]" "line_port v = Some 9000"
    and "filter is_verdict (check fetch 9001) = [w]" "line_port w = Some 9001"
    using check_verdict by blast
  then show ?thesis by (simp add: probe_main_def)
qed

text \<open>
  C22. On a console that cannot encode the emoji, every run of the probe dies inside
  \<open>check(9000)\<close>: the verdict print raises, the handler's print raises again and the
  exception ends the script. It has then printed the port header and the dump when the
  request succeeded, nothing otherwise, and port 9001 is never checked.
\<close>

theorem probe_dies_on_ascii_console:
  "probe_main_io ascii_line fetch =
     (case fetch (cdp_url 9000) of Inl e \<Rightarrow> ([], True) | Inr data \<Rightarrow> ([PortHeader 9000, Dump data], True))"
  by (auto simp: probe_main_io_def check_io_def try_body_def dest: analyse_verdict verdict_not_ascii
           split: sum.split)

text \<open>
  C23. The probe dies only through its handler: on any console that can print the
  handler's error lines, each \<open>check\<close> returns, both ports are checked in order and no
  exception escapes. The witness is a console that prints every line, on which the run
  is that of \<open>probe_main\<close> (\<open>probe_main_io_prints_all\<close>).
\<close>

theorem probe_survives_if_errors_print:
  assumes "\<forall>port e. pr (CheckError port e)"
  shows "\<exists>l1 l2. check_io pr fetch 9000 = (l1, False) \<and> check_io pr fetch 9001 = (l2, False) \<and>
           probe_main_io pr fetch = (l1 @ l2, False)"
proof -
  obtain l1 l2 where "check_io pr fetch 9000 = (l1, False)" "check_io pr fetch 9001 = (l2, False)"
    using check_io_handled [of pr 9000 fetch] check_io_handled [of pr 9001 fetch] assms
    by (metis prod.collapse)
  then show ?thesis by (simp add: probe_main_io_def)
qed

theorem probe_survives_if_errors_print_witness:
  "\<exists>l1 l2. check_io (\<lambda>_. True) (\<lambda>u. Inl (FetchError ''refused'')) 9000 = (l1, False) \<and>
     check_io (\<lambda>_. True) (\<lambda>u. Inl (FetchError ''refused'')) 9001 = (l2, False) \<and>
     probe_main_io (\<lambda>_. True) (\<lambda>u. Inl (FetchError ''refused'')) = (l1 @ l2, False)"
  using probe_survives_if_errors_print [of "\<lambda>_. True" "\<lambda>u. Inl (FetchError ''refused'')"] by simp

end
