(* ===== verification/Spec2Isabelle.thy ===== *)
theory Spec2Isabelle
  imports Purge_Run Scan_Records Delete_Order Console_Run Integrity_Check Debug_CDP
begin

text \<open>
  \<^bold>\<open>A verification library for the operator scripts of the repository.\<close>

  \<^bold>\<open>The program.\<close> Three independent Python scripts; no data flows between them.
  \<^item> \<open>src/scripts/clean_reg.py\<close>, the registry purger: for each of six fixed
    context-menu keys (\<open>targets\<close>), \<open>search_keys\<close> enumerates the immediate
    subkeys and reports those whose name or string default value contains
    \<open>"Antigravity"\<close> ignoring case; the module body then calls \<open>delete_key\<close> on
    every reported path, which deletes the subtree first child first, then the key. All
    store errors are caught and printed.
  \<^item> \<open>src/scripts/integrity_check.py\<close>: walks the working directory, runs
    \<open>node --check\<close> on every \<open>.js\<close> file, warns about \<open>FIXME\<close> markers, and
    exits 0 or 1.
  \<^item> \<open>src/archive/debug_cdp.py\<close>: fetches the debugger target list of two local
    ports and classifies it (workbench page, other page, nothing).

  \<^bold>\<open>Theories.\<close>
  \<^item> \<open>Prelude\<close>: the Python string operations the scripts use, on \<open>char list\<close>:
    \<open>lower\<close> (\<open>str.lower\<close> on ASCII letters), \<open>contains\<close> (the substring test
    \<open>in\<close>, proved equal to \<open>sublist\<close>), \<open>split_on\<close> (\<open>str.split\<close>),
    \<open>join_path\<close> (the f-string joining a path and a name with a backslash), and the collection
    \<open>path_simps\<close>.
  \<^item> \<open>Winreg\<close>: the store behind Python's \<open>winreg\<close>, modelled from the
    specification's store interface since the module is not in the repository. A hive
    is a tree of \<open>rkey\<close>s: access control, optional default value, and subkeys as an
    ordered association list (the order of \<open>EnumKey\<close>); names are matched ignoring
    case. \<open>OpenKey\<close>, \<open>EnumKey\<close>, \<open>QueryDefaultValue\<close> (\<open>QueryValueEx(key, "")\<close>)
    and \<open>DeleteKey\<close> return \<open>win_error + _\<close>; \<open>DeleteKey\<close> refuses a key with
    subkeys, as the real call does. \<open>wf_key\<close> is what the registry guarantees of
    names (non-empty, no backslash, distinct ignoring case). The lemmas are an algebra
    of path lookup and update in the style of nested environments.
  \<^item> \<open>Clean_Reg\<close>: \<open>clean_reg.py\<close>. The state \<open>rstate\<close> is the store and the
    printed lines. \<open>search_keys\<close> is \<open>OpenKey\<close> and the \<open>EnumKey\<close> index loop
    \<open>search_loop\<close> (a \<open>function\<close>, terminating by the number of subkeys minus the
    index), one step per subkey being \<open>check_name\<close> (lines 13--16) and
    \<open>check_value\<close> (lines 18--27). \<open>delete_key\<close> and its \<open>while True\<close> loop are
    one \<open>partial_function (option)\<close> \<open>delete_run\<close> over the two kinds of call: the
    loop has no bound in the source, so not returning is \<open>None\<close>.
    \<open>delete_matches\<close>, \<open>scan_targets\<close> and \<open>main\<close> are the module body (lines
    55--71). No fuel is used anywhere: termination is either proved (\<open>search_loop\<close>)
    or characterised exactly (\<open>delete_run\<close>).
  \<^item> \<open>Purge_Run\<close>: whole runs of \<open>clean_reg.py\<close> against the specification
    \<open>purge_run\<close>, which replaces each target key by \<open>purge_key\<close> (its reported, fully
    accessible subkeys removed) and fails when a reported subkey has a protected descendant
    (\<open>blocked\<close>, the case in which \<open>delete_key\<close> never returns). The deletions of one
    target are computed child by child (\<open>delete_matches_children\<close>: removed, refused, or
    blocked) and change no lookup at a path that diverges from the target (\<open>diverge\<close>, in
    \<open>Winreg\<close>); the six targets pairwise diverge (\<open>targets_apart\<close>). \<open>purge_trace\<close>
    adds the printed log to \<open>purge_run\<close>: per target its matches (\<open>target_log\<close>), then
    per reported subkey its deletion log (\<open>child_log\<close>: the post-order \<open>delete_log\<close> for
    the first match of a fully accessible subkey and a not-found failure for each further
    match of it, a permission failure for every match of any other subkey, \<open>fail_log\<close>).
  \<^item> \<open>Scan_Records\<close>: the records \<open>search_keys\<close> returns on any store, through
    \<open>search_loop_unfold\<close> (the loop is the concatenation of \<open>subkey_records\<close>, one turn
    per subkey); \<open>record_ok\<close> is the shape of a well-formed record. \<open>search_keys_io\<close>
    (with \<open>search_loop_io\<close> and \<open>emit_records\<close>) is the scan on a console \<open>pr\<close> that may
    refuse a \<open>FOUND\<close> line; \<open>print_prefix\<close> says what such a scan returns and prints.
  \<^item> \<open>Delete_Order\<close>: the order of the deletions of \<open>delete_key\<close>, through
    \<open>key_paths\<close> (every key of a subtree with its own subtree) and \<open>desc_paths\<close> (the
    proper descendants of a key).
  \<^item> \<open>Console_Run\<close>: \<open>clean_reg.py\<close> on a console \<open>pr\<close> that may refuse a line.
    \<open>delete_run_io\<close> is \<open>delete_run\<close> with its prints raising: the refused
    \<open>Attempting\<close> print (line 38, outside the \<open>try\<close>) leaves the call, a raise in the subkey
    loop is not an \<open>OSError\<close> and reaches the parent's handler (\<open>handle_failed\<close>, whose
    line \<open>FailedEncode\<close> may be refused too); \<open>delete_matches_io\<close>, \<open>scan_targets_io\<close> and
    \<open>main_io\<close> compose it with \<open>search_keys_io\<close>. A result \<open>(st, True)\<close> is an escaping
    exception; it is related to \<open>delete_run\<close> by fixpoint induction in both directions.
  \<^item> \<open>Integrity_Check\<close>: \<open>integrity_check.py\<close>. The working directory is an
    \<open>fs_node\<close> tree (entries in listing order; a file's content is \<open>None\<close> when it is not
    valid UTF-8). \<open>walk_js\<close> is the \<open>os.walk\<close> loop with \<open>node_modules\<close> pruning (lines
    28--33; a \<open>function\<close> terminating by the size of the tree), \<open>run_check\<close> and
    \<open>syntax_checks\<close> the checks (lines 6--20, 35--37) with the shell a parameter
    (the result or exception of \<open>subprocess.run\<close> per command), \<open>fixme_scan\<close> the marker
    loop (lines 43--48), \<open>ic_main\<close> the printed lines and the exit outcome.
    \<open>sh_fields\<close> is \<open>/bin/sh\<close> field splitting of an unquoted command, a model of
    the environment, not of the repository, and only for commands without the shell's
    special characters (\<open>sh_special\<close>). \<open>run_check_io\<close>, \<open>syntax_checks_io\<close>,
    \<open>fixme_scan_io\<close> and \<open>ic_main_io\<close> are the same code on a console \<open>pr\<close> that may
    refuse a line: a refused print inside a \<open>try\<close> goes to the handler, any other one
    escapes and ends the run uncaught; on a console accepting every line but the success
    line they agree with the models above (\<open>ic_main_io_pass_crashes\<close>).
  \<^item> \<open>Debug_CDP\<close>: \<open>debug_cdp.py\<close>. \<open>cdp_url\<close> builds the URL of line 6 with
    \<open>py_int_str\<close>, Python's decimal rendering of an \<open>int\<close>; the request on that URL and
    \<open>json.loads\<close> are a parameter \<open>fetch\<close> (decoded \<open>json\<close> or the exception). \<open>py_get\<close>, \<open>py_in\<close>,
    \<open>py_iter\<close>, \<open>truthy\<close> and \<open>next_match\<close> are the Python operations the analysis
    uses, with their exceptions as \<open>py_error\<close> values; \<open>analyse\<close> is lines 12--21,
    \<open>check\<close> lines 4--24 and \<open>probe_main\<close> lines 26--27, on a console that prints every
    line. \<open>check_io\<close> and \<open>probe_main_io\<close> take the console as a parameter \<open>pr\<close> (which
    lines it can encode): a print that fails inside the \<open>try\<close> block (\<open>try_body\<close>) goes to
    the handler, and a failing handler print ends the script; with \<open>pr = (\<lambda>_. True)\<close>
    they are \<open>check\<close> and \<open>probe_main\<close> (\<open>probe_main_io_prints_all\<close>). \<open>ascii_line\<close>
    is an ASCII console, read off the printed literals.
  \<^item> \<open>Spec2Isabelle\<close> (this theory): this overview; the properties are stated in the
    component theories.

  \<^bold>\<open>What is proved.\<close>
  \<^item> \<open>delete_key\<close> returns on an existing key if and only if the key is not fully
    accessible or its whole subtree is (C1, by fixpoint induction over
    \<open>delete_run\<close> with the postcondition \<open>delete_post\<close>, and by structural
    induction over the subtree for the converse). A fully accessible key with one
    protected subkey makes the script loop forever.
  \<^item> Where it returns on a deletable subtree, \<open>delete_key\<close> refines
    \<open>delete_spec\<close>: the subtree is removed, the rest of the store is untouched, and the
    log is the post-order trace \<open>delete_log\<close> (C2); the key can no longer be opened
    (C5); every key is deleted after all of its descendants (C27, the specification's
    property 4); a second deletion of the same path fails with \<open>FileNotFoundError\<close> and
    changes nothing (C4); a missing key is a printed, non-fatal failure (C6). Every
    returning call keeps the store well-formed (\<open>delete_run_wf\<close>), the invariant the
    refinement lemmas use.
  \<^item> \<open>search_keys\<close> refines \<open>scan_spec\<close>, a statement over the subkey list (C3). The path built from an enumerated name opens
    that subkey, which needs the distinct-names invariant.
  \<^item> On any store, every record of a scan names the scanned hive and an immediate
    subkey, with the line of its reason (C18), and there are at most two per subkey (C19).
    On a console that refuses a \<open>FOUND\<close> line the scan of that target stops there but
    still returns the unreported match, which the run then deletes (C26).
  \<^item> On a console that may refuse a line, a subkey whose
    path the console refuses makes its parent fail and stay, subtree included (C28); a
    reported key whose path the console refuses ends the script with an uncaught exception
    before anything of its target is deleted (C29).
  \<^item> On a
    well-formed store the run refines \<open>purge_run\<close>: it returns exactly when no target has a
    blocked match, with the specified store (C16). Whenever a run returns, a second run
    returns and leaves the store unchanged (C17, the specification's re-run property); when
    every reported subkey is deletable, the second run finds nothing at all (C15). A match
    without full access is refused with \<open>PermissionError\<close> on every run, the second
    included, contrary to the specification's re-run property (C20). The whole printed
    output of a run is that of \<open>purge_trace\<close>, line for line and in order (C21).
  \<^item> The walk equals the specification \<open>js_spec\<close> (every \<open>.js\<close> file not below a
    \<open>node_modules\<close> directory, in walk order) on trees with distinct names (C7). The
    checker exits 0 exactly when every check returns 0 and every found file decodes;
    markers never matter (C8). Every found file is checked once, in order (C9). Warnings
    stop at the first undecodable file, whose read error ends the run (C10). The command
    passes a path without shell special characters as one argument exactly when it has no
    blank (C11). On a console that
    cannot encode the rocket of the success line, a passing run crashes on that line
    (C24) and no run ever exits with 0 (C25).
  \<^item> On well-formed targets the probe prints exactly the verdict of \<open>classify_spec\<close>
    (C12); a non-object entry after a workbench turns the verdict into an error (C13);
    every run prints one verdict per port, in port order (C14).
    On an ASCII
    console every run dies inside \<open>check(9000)\<close> and never checks port 9001 (C22); on a
    console that can print the handler's lines, both ports are always checked (C23).

  \<^bold>\<open>Not modelled.\<close>
  \<^item> \<open>HKEY_CLASSES_ROOT\<close> is a hive of its own here; Windows presents it as a merged
    view of the per-user and per-machine class keys, so deleting under one target may
    change another. The specification names the merged view but gives it no semantics
    (which copy a lookup, an enumeration or a deletion reaches), so a model of it would be
    invented; the model treats the three hives as independent stores, and C15 to C17,
    C20 and C21 hold under that assumption.
  \<^item> Concurrent modification of the registry by other processes, named values,
    and Unicode case folding beyond ASCII.
  \<^item> Which characters a console's encoding represents: the console is a parameter of
    every model with raising prints (\<open>search_keys_io\<close>, \<open>main_io\<close>, \<open>check_io\<close>,
    \<open>ic_main_io\<close>).
  \<^item> In \<open>integrity_check.py\<close>: symbolic links, file names that are not strings,
    and what \<open>node --check\<close> decides (the shell is a parameter).
  \<^item> In \<open>debug_cdp.py\<close>: the HTTP exchange and JSON decoding (a parameter), the
    text of \<open>json.dumps\<close> (a \<open>Dump\<close> line carries the document), floating-point
    numbers (\<open>JNum\<close> holds integers), and which encodings accept which characters (the
    console is a parameter; \<open>ascii_line\<close> is one instance).
\<close>


end
